theory Spec2Isabelle
  imports Complex_Main "HOL-Library.Sublist" "HOL-Library.AList"
begin

section \<open>JavaScript values shared by the services\<close>

text \<open>
  A value thrown by the code. \<open>ErrorObj name message\<close> is an instance of \<open>Error\<close> with
  its \<open>name\<close> and \<open>message\<close> properties (\<open>new Error(m)\<close> has the name \<open>Error\<close>, an
  aborted \<open>fetch\<close> rejects with the name \<open>AbortError\<close>); \<open>NonErrorValue\<close> is anything
  else that was thrown. Strings are sequences of code units, here \<open>char list\<close>.
\<close>

datatype thrown = ErrorObj string string | NonErrorValue string

definition new_Error :: "string \<Rightarrow> thrown" where
  "new_Error message = ErrorObj ''Error'' message"

fun instanceof_Error :: "thrown \<Rightarrow> bool" where
  "instanceof_Error (ErrorObj n m) = True"
| "instanceof_Error (NonErrorValue v) = False"

fun err_name :: "thrown \<Rightarrow> string" where
  "err_name (ErrorObj n m) = n"
| "err_name (NonErrorValue v) = []"

section \<open>Path segment validation (downloadManager.ts, safePathSegment)\<close>

text \<open>
  The character class \<open>[a-zA-Z0-9._-]\<close> of \<open>SAFE_SEGMENT_RE\<close> and of the replacement
  pattern, by code unit.
\<close>

definition safe_segment_char :: "char \<Rightarrow> bool" where
  "safe_segment_char c =
     (let n = (of_char c :: nat)
      in (97 \<le> n \<and> n \<le> 122) \<or> (65 \<le> n \<and> n \<le> 90) \<or> (48 \<le> n \<and> n \<le> 57)
         \<or> c = CHR ''.'' \<or> c = CHR ''_'' \<or> c = CHR ''-'')"

text \<open>\<open>SAFE_SEGMENT_RE.test(value)\<close> for \<open>/^[a-zA-Z0-9._-]+$/\<close>: one or more characters,
  all of the class, from the start of the input to its end.\<close>

definition SAFE_SEGMENT_RE_test :: "string \<Rightarrow> bool" where
  "SAFE_SEGMENT_RE_test v = (v \<noteq> [] \<and> list_all safe_segment_char v)"

text \<open>\<open>value.replace(/[^a-zA-Z0-9._-]/g, "_")\<close>: every code unit outside the class
  becomes an underscore, the others stay.\<close>

definition replace_unsafe :: "string \<Rightarrow> string" where
  "replace_unsafe v = map (\<lambda>c. if safe_segment_char c then c else CHR ''_'') v"

definition safePathSegment :: "string \<Rightarrow> string \<Rightarrow> thrown + string" where
  "safePathSegment v label =
     (if v = [] \<or> v = ''.'' \<or> v = ''..'' then Inl (new_Error (''Invalid '' @ label))
      else if SAFE_SEGMENT_RE_test v then Inr v
      else (let cleaned = replace_unsafe v
            in if cleaned = [] \<or> cleaned = ''.'' \<or> cleaned = ''..''
               then Inl (new_Error (''Invalid '' @ label))
               else Inr cleaned))"

section \<open>Properties of the path segment sanitizer\<close>

lemma safe_segment_char_iff:
  "safe_segment_char c \<longleftrightarrow>
     c \<in> set ''abcdefghijklmnopqrstuvwxyzABCDEFGHIJKLMNOPQRSTUVWXYZ0123456789._-''"
proof (cases c)
  case (Char b0 b1 b2 b3 b4 b5 b6 b7)
  then show ?thesis
    by (cases b0; cases b1; cases b2; cases b3; cases b4; cases b5; cases b6; cases b7)
       (simp_all add: safe_segment_char_def)
qed

lemma replace_unsafe_all_safe: "list_all safe_segment_char (replace_unsafe v)"
  by (induction v) (simp_all add: replace_unsafe_def safe_segment_char_def)

lemma replace_unsafe_fixed:
  "list_all safe_segment_char v \<Longrightarrow> replace_unsafe v = v"
  by (induction v) (simp_all add: replace_unsafe_def)


definition segment_alphabet :: "char set" where
  "segment_alphabet =
     set ''abcdefghijklmnopqrstuvwxyzABCDEFGHIJKLMNOPQRSTUVWXYZ0123456789._-''"

lemma safe_segment_char_alphabet: "safe_segment_char c \<longleftrightarrow> c \<in> segment_alphabet"
  unfolding segment_alphabet_def by (rule safe_segment_char_iff)

lemma SAFE_SEGMENT_RE_test_alphabet:
  "SAFE_SEGMENT_RE_test v \<longleftrightarrow> v \<noteq> [] \<and> set v \<subseteq> segment_alphabet"
  by (auto simp: SAFE_SEGMENT_RE_test_def list_all_iff safe_segment_char_alphabet)

lemma replace_unsafe_alphabet:
  "replace_unsafe v = map (\<lambda>c. if c \<in> segment_alphabet then c else CHR ''_'') v"
  by (simp add: replace_unsafe_def safe_segment_char_alphabet)

lemma safePathSegment_result:
  assumes "safePathSegment v label = Inr r"
  shows "r \<noteq> [] \<and> set r \<subseteq> segment_alphabet \<and> r \<noteq> ''.'' \<and> r \<noteq> ''..''"
proof (cases "SAFE_SEGMENT_RE_test v")
  case True
  with assms have "r = v" and "v \<noteq> ''.''" and "v \<noteq> ''..''"
    by (auto simp: safePathSegment_def split: if_splits)
  with True show ?thesis
    by (simp add: SAFE_SEGMENT_RE_test_alphabet)
next
  case False
  with assms have r: "r = replace_unsafe v" and ne: "r \<noteq> []" "r \<noteq> ''.''" "r \<noteq> ''..''"
    by (auto simp: safePathSegment_def Let_def split: if_splits)
  have "list_all safe_segment_char r"
    unfolding r by (rule replace_unsafe_all_safe)
  then have "set r \<subseteq> segment_alphabet"
    by (auto simp: list_all_iff safe_segment_char_alphabet)
  with ne show ?thesis by simp
qed

text \<open>
  Claim C6. The sanitizer rejects the empty string, \<open>.\<close> and \<open>..\<close>; it returns a value
  that matches \<open>^[A-Za-z0-9._-]+$\<close> unchanged; any other value comes back with every
  character outside the class replaced by an underscore, unless that result is empty,
  \<open>.\<close> or \<open>..\<close>, which fails; and whatever it returns is a non-empty string over the
  class that is neither \<open>.\<close> nor \<open>..\<close>.
\<close>

theorem safePathSegment_sanitizes:
  "(v = [] \<or> v = ''.'' \<or> v = ''..''
      \<longrightarrow> safePathSegment v label = Inl (new_Error (''Invalid '' @ label)))
   \<and> (v \<noteq> ''.'' \<and> v \<noteq> ''..'' \<and> v \<noteq> [] \<and> set v \<subseteq> segment_alphabet
      \<longrightarrow> safePathSegment v label = Inr v)
   \<and> (v \<noteq> [] \<and> v \<noteq> ''.'' \<and> v \<noteq> ''..'' \<and> \<not> set v \<subseteq> segment_alphabet
      \<longrightarrow> safePathSegment v label =
          (let cleaned = map (\<lambda>c. if c \<in> segment_alphabet then c else CHR ''_'') v
           in if cleaned = [] \<or> cleaned = ''.'' \<or> cleaned = ''..''
              then Inl (new_Error (''Invalid '' @ label)) else Inr cleaned))
   \<and> (\<forall>r. safePathSegment v label = Inr r
      \<longrightarrow> r \<noteq> [] \<and> set r \<subseteq> segment_alphabet \<and> r \<noteq> ''.'' \<and> r \<noteq> ''..'')"
proof -
  have reject: "v = [] \<or> v = ''.'' \<or> v = ''..''
      \<longrightarrow> safePathSegment v label = Inl (new_Error (''Invalid '' @ label))"
    by (auto simp: safePathSegment_def)
  have keep: "v \<noteq> ''.'' \<and> v \<noteq> ''..'' \<and> v \<noteq> [] \<and> set v \<subseteq> segment_alphabet
      \<longrightarrow> safePathSegment v label = Inr v"
    by (simp add: safePathSegment_def SAFE_SEGMENT_RE_test_alphabet)
  have rewrite: "v \<noteq> [] \<and> v \<noteq> ''.'' \<and> v \<noteq> ''..'' \<and> \<not> set v \<subseteq> segment_alphabet
      \<longrightarrow> safePathSegment v label =
          (let cleaned = map (\<lambda>c. if c \<in> segment_alphabet then c else CHR ''_'') v
           in if cleaned = [] \<or> cleaned = ''.'' \<or> cleaned = ''..''
              then Inl (new_Error (''Invalid '' @ label)) else Inr cleaned)"
    by (simp add: safePathSegment_def SAFE_SEGMENT_RE_test_alphabet
        replace_unsafe_alphabet [symmetric])
  have returned: "\<forall>r. safePathSegment v label = Inr r
      \<longrightarrow> r \<noteq> [] \<and> set r \<subseteq> segment_alphabet \<and> r \<noteq> ''.'' \<and> r \<noteq> ''..''"
    using safePathSegment_result by blast
  from reject keep rewrite returned show ?thesis
    by blast
qed

theorem safePathSegment_sanitizes_witness:
  "safePathSegment ''..'' ''version'' = Inl (new_Error ''Invalid version'')
   \<and> safePathSegment ''com.example.App-2'' ''bundleID'' = Inr ''com.example.App-2''
   \<and> safePathSegment ''../a b'' ''accountHash'' = Inr ''.._a_b''
   \<and> set ''.._a_b'' \<subseteq> segment_alphabet"
proof -
  note T = safePathSegment_sanitizes
  have a: "safePathSegment ''..'' ''version'' = Inl (new_Error (''Invalid '' @ ''version''))"
    by (rule T [THEN conjunct1, THEN mp]) simp
  have b: "safePathSegment ''com.example.App-2'' ''bundleID'' = Inr ''com.example.App-2''"
    by (rule T [THEN conjunct2, THEN conjunct1, THEN mp]) (simp add: segment_alphabet_def)
  have "safePathSegment ''../a b'' ''accountHash'' =
          (let cleaned = map (\<lambda>c. if c \<in> segment_alphabet then c else CHR ''_'') ''../a b''
           in if cleaned = [] \<or> cleaned = ''.'' \<or> cleaned = ''..''
              then Inl (new_Error (''Invalid '' @ ''accountHash'')) else Inr cleaned)"
    by (rule T [THEN conjunct2, THEN conjunct2, THEN conjunct1, THEN mp])
       (simp add: segment_alphabet_def)
  then have c: "safePathSegment ''../a b'' ''accountHash'' = Inr ''.._a_b''"
    by (simp add: segment_alphabet_def)
  have d: "set ''.._a_b'' \<subseteq> segment_alphabet"
    using T [THEN conjunct2, THEN conjunct2, THEN conjunct2, THEN spec, THEN mp, OF c]
    by blast
  from a b c d show ?thesis by simp
qed



section \<open>Chunk ranges (chunkedDownloader.ts, splitChunks)\<close>

text \<open>
  JavaScript numbers are modelled as integers: sizes are byte counts below \<open>2^53\<close> and the
  thread count is an integer, so the quotient \<open>totalSize / threads\<close> and its ceiling
  are the exact ones. The loop pushes one range per iteration and breaks at the first
  start beyond the last byte.
\<close>

record ChunkRange =
  chunk_index :: int
  chunk_start :: int
  chunk_end :: int

function splitChunks_loop :: "int \<Rightarrow> int \<Rightarrow> int \<Rightarrow> int \<Rightarrow> ChunkRange list" where
  "splitChunks_loop threads totalSize chunkSize i =
     (if i < threads then
        (let start = i * chunkSize;
             end_incl = min (start + chunkSize - 1) (totalSize - 1)
         in if start > totalSize - 1 then []
            else \<lparr>chunk_index = i, chunk_start = start, chunk_end = end_incl\<rparr>
                 # splitChunks_loop threads totalSize chunkSize (i + 1))
      else [])"
  by pat_completeness auto
termination
  by (relation "measure (\<lambda>(threads, totalSize, chunkSize, i). nat (threads - i))") auto

definition splitChunks :: "int \<Rightarrow> int \<Rightarrow> ChunkRange list" where
  "splitChunks threads totalSize =
     (let chunkSize = \<lceil>real_of_int totalSize / real_of_int threads\<rceil>
      in splitChunks_loop threads totalSize chunkSize 0)"

declare splitChunks_loop.simps [simp del]


section \<open>Properties of the chunk ranges\<close>

text \<open>The range the claim gives to chunk \<open>i\<close>.\<close>

definition chunk_of :: "int \<Rightarrow> int \<Rightarrow> int \<Rightarrow> ChunkRange" where
  "chunk_of totalSize chunkSize i =
     \<lparr>chunk_index = i, chunk_start = i * chunkSize,
      chunk_end = min ((i + 1) * chunkSize - 1) (totalSize - 1)\<rparr>"

lemma splitChunks_loop_filter:
  assumes "0 \<le> chunkSize" "0 \<le> i"
  shows "splitChunks_loop threads totalSize chunkSize i =
         map (chunk_of totalSize chunkSize)
           (filter (\<lambda>j. j * chunkSize \<le> totalSize - 1) [i..threads - 1])"
  using assms
proof (induction threads totalSize chunkSize i rule: splitChunks_loop.induct)
  case (1 threads totalSize chunkSize i)
  show ?case
  proof (cases "i < threads")
    case False
    then show ?thesis by (simp add: splitChunks_loop.simps)
  next
    case lt: True
    then have up: "[i..threads - 1] = i # [i + 1..threads - 1]"
      by (simp add: upto_rec1)
    show ?thesis
    proof (cases "i * chunkSize > totalSize - 1")
      case True
      have "\<forall>j\<in>set [i..threads - 1]. \<not> j * chunkSize \<le> totalSize - 1"
      proof
        fix j assume "j \<in> set [i..threads - 1]"
        then have "i \<le> j" by simp
        then have "i * chunkSize \<le> j * chunkSize"
          using "1.prems" by (simp add: mult_right_mono)
        with True show "\<not> j * chunkSize \<le> totalSize - 1" by linarith
      qed
      then have "filter (\<lambda>j. j * chunkSize \<le> totalSize - 1) [i..threads - 1] = []"
        by (simp add: filter_empty_conv)
      with True lt show ?thesis
        by (simp add: splitChunks_loop.simps [of threads totalSize chunkSize i])
    next
      case False
      have "splitChunks_loop threads totalSize chunkSize (i + 1) =
            map (chunk_of totalSize chunkSize)
              (filter (\<lambda>j. j * chunkSize \<le> totalSize - 1) [i + 1..threads - 1])"
        using "1.IH" [OF lt refl refl] False "1.prems" by simp
      with False lt up show ?thesis
        by (simp add: splitChunks_loop.simps [of threads totalSize chunkSize i]
            chunk_of_def Let_def algebra_simps)
    qed
  qed
qed


lemma filter_le_upto: "filter (\<lambda>i. i \<le> q) [a..b] = [a..min q b]"
proof (induction a b rule: upto.induct)
  case (1 a b)
  show ?case
  proof (cases "a \<le> b")
    case False
    then show ?thesis by simp
  next
    case True
    then have "[a..b] = a # [a + 1..b]" by (simp add: upto_rec1)
    with True "1.IH" show ?thesis
      by (cases "a \<le> q") (simp_all add: upto_rec1)
  qed
qed


lemma mult_le_iff_le_div:
  fixes i c x :: int
  assumes "0 < c"
  shows "i * c \<le> x \<longleftrightarrow> i \<le> x div c"
proof
  assume "i * c \<le> x"
  then have "(i * c) div c \<le> x div c"
    using assms by (rule zdiv_mono1)
  with assms show "i \<le> x div c" by simp
next
  assume "i \<le> x div c"
  then have "i * c \<le> (x div c) * c"
    using assms by (simp add: mult_right_mono)
  also have "(x div c) * c \<le> x"
  proof -
    have "x = (x div c) * c + x mod c" by simp
    moreover have "0 \<le> x mod c" using assms by simp
    ultimately show ?thesis by linarith
  qed
  finally show "i * c \<le> x" .
qed

lemma chunkSize_bounds:
  fixes N T :: int
  assumes "1 \<le> N" "1 \<le> T"
  defines "cs \<equiv> \<lceil>real_of_int N / real_of_int T\<rceil>"
  shows "1 \<le> cs" and "N \<le> T * cs"
proof -
  have cs: "cs = - (- N div T)"
    unfolding cs_def by (rule ceiling_divide_eq_div)
  have "- N div T < 0"
    using assms by (intro div_neg_pos_less0) simp_all
  then show "1 \<le> cs" unfolding cs by simp
  have "- N = T * (- N div T) + (- N) mod T" by simp
  moreover have "0 \<le> (- N) mod T" using assms by simp
  ultimately have "T * (- N div T) \<le> - N" by linarith
  then show "N \<le> T * cs" unfolding cs by simp
qed

lemma splitChunks_as_map:
  assumes "1 \<le> N" "1 \<le> T"
  defines "cs \<equiv> \<lceil>real_of_int N / real_of_int T\<rceil>"
  shows "splitChunks T N = map (chunk_of N cs) [0..min ((N - 1) div cs) (T - 1)]"
proof -
  have pos: "0 < cs"
    using chunkSize_bounds(1) [OF assms(1,2)] unfolding cs_def by simp
  have "splitChunks T N =
        map (chunk_of N cs) (filter (\<lambda>j. j * cs \<le> N - 1) [0..T - 1])"
    using pos by (simp add: splitChunks_def cs_def [symmetric] splitChunks_loop_filter)
  also have "(\<lambda>j. j * cs \<le> N - 1) = (\<lambda>j. j \<le> (N - 1) div cs)"
    using mult_le_iff_le_div [OF pos] by blast
  finally show ?thesis by (simp add: filter_le_upto)
qed

lemma nth_upto0: "int k \<le> m \<Longrightarrow> [0..m] ! k = int k"
  by (simp add: nth_upto)

lemma length_upto0: "length [0..m] = nat (m + 1)"
  by simp


text \<open>
  Claim C7. For a total size \<open>N \<ge> 1\<close> and \<open>T \<ge> 1\<close> threads, with chunk size
  \<open>ceil(N/T)\<close>, splitChunks returns, in ascending index order from 0, exactly the
  chunks whose start \<open>i * chunkSize\<close> is at most \<open>N - 1\<close>, chunk \<open>i\<close> covering the
  inclusive range from \<open>i * chunkSize\<close> to \<open>min ((i + 1) * chunkSize - 1) (N - 1)\<close>;
  the ranges are pairwise disjoint, each starts right after the one before, and their
  union is the byte range from 0 to \<open>N - 1\<close>.
\<close>

theorem splitChunks_partition:
  assumes "1 \<le> N" "1 \<le> T"
  defines "cs \<equiv> \<lceil>real_of_int N / real_of_int T\<rceil>"
  shows "splitChunks T N =
           map (\<lambda>i. \<lparr>chunk_index = i, chunk_start = i * cs,
                       chunk_end = min ((i + 1) * cs - 1) (N - 1)\<rparr>)
             (filter (\<lambda>i. i * cs \<le> N - 1) [0..T - 1])
         \<and> (\<forall>i j. i < j \<and> j < length (splitChunks T N) \<longrightarrow>
               {chunk_start (splitChunks T N ! i)..chunk_end (splitChunks T N ! i)}
               \<inter> {chunk_start (splitChunks T N ! j)..chunk_end (splitChunks T N ! j)} = {})
         \<and> (\<forall>k. Suc k < length (splitChunks T N) \<longrightarrow>
               chunk_start (splitChunks T N ! Suc k) = chunk_end (splitChunks T N ! k) + 1)
         \<and> (\<Union>c\<in>set (splitChunks T N). {chunk_start c..chunk_end c}) = {0..N - 1}"
proof -
  have pos: "0 < cs" and big: "N \<le> T * cs"
    using chunkSize_bounds [OF assms(1,2)] unfolding cs_def by simp_all
  define m where "m = min ((N - 1) div cs) (T - 1)"
  have m0: "0 \<le> m"
    using assms pos by (simp add: m_def pos_imp_zdiv_nonneg_iff)
  have chunks: "splitChunks T N = map (chunk_of N cs) [0..m]"
    unfolding m_def cs_def using assms(1,2) by (rule splitChunks_as_map)
  have len: "length (splitChunks T N) = nat (m + 1)"
    by (simp add: chunks)
  have nth: "splitChunks T N ! k = chunk_of N cs (int k)" if "k < length (splitChunks T N)" for k
    using that by (simp add: chunks nth_upto)
  have inrange: "int k * cs \<le> N - 1" if "k < length (splitChunks T N)" for k
  proof -
    from that have "int k \<le> (N - 1) div cs" by (simp add: len m_def)
    then show ?thesis using mult_le_iff_le_div [OF pos] by blast
  qed
  have shape: "splitChunks T N =
           map (\<lambda>i. \<lparr>chunk_index = i, chunk_start = i * cs,
                       chunk_end = min ((i + 1) * cs - 1) (N - 1)\<rparr>)
             (filter (\<lambda>i. i * cs \<le> N - 1) [0..T - 1])"
  proof -
    have "splitChunks T N =
        map (chunk_of N cs) (filter (\<lambda>j. j * cs \<le> N - 1) [0..T - 1])"
      using pos by (simp add: splitChunks_def cs_def [symmetric] splitChunks_loop_filter)
    then show ?thesis by (simp add: chunk_of_def [abs_def])
  qed
  have contiguous: "chunk_start (splitChunks T N ! Suc k) = chunk_end (splitChunks T N ! k) + 1"
    if "Suc k < length (splitChunks T N)" for k
  proof -
    have "(int k + 1) * cs \<le> N - 1"
      using inrange [OF that] by (simp add: algebra_simps)
    then show ?thesis
      using that by (simp add: nth chunk_of_def algebra_simps)
  qed
  have disjoint: "{chunk_start (splitChunks T N ! i)..chunk_end (splitChunks T N ! i)}
               \<inter> {chunk_start (splitChunks T N ! j)..chunk_end (splitChunks T N ! j)} = {}"
    if "i < j" "j < length (splitChunks T N)" for i j
  proof -
    have "int i + 1 \<le> int j" using that by simp
    then have "(int i + 1) * cs \<le> int j * cs"
      using pos by (simp add: mult_right_mono)
    moreover have "chunk_end (splitChunks T N ! i) \<le> (int i + 1) * cs - 1"
      using that by (simp add: nth chunk_of_def)
    moreover have "chunk_start (splitChunks T N ! j) = int j * cs"
      using that by (simp add: nth chunk_of_def)
    ultimately show ?thesis by auto
  qed
  have cover: "(\<Union>c\<in>set (splitChunks T N). {chunk_start c..chunk_end c}) = {0..N - 1}"
  proof (intro equalityI subsetI)
    fix x assume "x \<in> (\<Union>c\<in>set (splitChunks T N). {chunk_start c..chunk_end c})"
    then obtain i where i: "0 \<le> i" "i \<le> m" and x: "i * cs \<le> x" "x \<le> min ((i + 1) * cs - 1) (N - 1)"
      by (auto simp: chunks chunk_of_def)
    have "0 \<le> i * cs" using i pos by simp
    with x show "x \<in> {0..N - 1}" by simp
  next
    fix x assume "x \<in> {0..N - 1}"
    then have x: "0 \<le> x" "x \<le> N - 1" by simp_all
    define i where "i = x div cs"
    have i0: "0 \<le> i" using x pos by (simp add: i_def pos_imp_zdiv_nonneg_iff)
    have i1: "i \<le> (N - 1) div cs" unfolding i_def using x(2) pos by (rule zdiv_mono1)
    have "x < T * cs" using x big by linarith
    then have "\<not> T * cs \<le> x" by simp
    then have "x div cs < T"
      using mult_le_iff_le_div [OF pos, of T x] by simp
    then have i2: "i \<le> T - 1" by (simp add: i_def)
    have lo: "i * cs \<le> x"
      using mult_le_iff_le_div [OF pos, of i x] by (simp add: i_def)
    have "\<not> (i + 1) * cs \<le> x"
      using mult_le_iff_le_div [OF pos, of "i + 1" x] by (simp add: i_def)
    then have hi: "x \<le> (i + 1) * cs - 1" by simp
    have "chunk_of N cs i \<in> set (splitChunks T N)"
      using i0 i1 i2 by (simp add: chunks m_def)
    moreover have "x \<in> {chunk_start (chunk_of N cs i)..chunk_end (chunk_of N cs i)}"
      using lo hi x by (simp add: chunk_of_def)
    ultimately show "x \<in> (\<Union>c\<in>set (splitChunks T N). {chunk_start c..chunk_end c})"
      by blast
  qed
  from shape disjoint contiguous cover show ?thesis by blast
qed


theorem splitChunks_partition_witness:
  "splitChunks 4 10 =
     [\<lparr>chunk_index = 0, chunk_start = 0, chunk_end = 2\<rparr>,
      \<lparr>chunk_index = 1, chunk_start = 3, chunk_end = 5\<rparr>,
      \<lparr>chunk_index = 2, chunk_start = 6, chunk_end = 8\<rparr>,
      \<lparr>chunk_index = 3, chunk_start = 9, chunk_end = 9\<rparr>]
   \<and> (\<Union>c\<in>set (splitChunks 4 10). {chunk_start c..chunk_end c}) = {0..9}
   \<and> chunk_start (splitChunks 4 10 ! Suc 2) = chunk_end (splitChunks 4 10 ! 2) + 1"
proof -
  have h: "(1::int) \<le> 10" "(1::int) \<le> 4" by simp_all
  note P = splitChunks_partition [OF h]
  have a: "splitChunks 4 10 =
     [\<lparr>chunk_index = 0, chunk_start = 0, chunk_end = 2\<rparr>,
      \<lparr>chunk_index = 1, chunk_start = 3, chunk_end = 5\<rparr>,
      \<lparr>chunk_index = 2, chunk_start = 6, chunk_end = 8\<rparr>,
      \<lparr>chunk_index = 3, chunk_start = 9, chunk_end = 9\<rparr>]"
    using P [THEN conjunct1] by (simp add: upto_rec1)
  have b: "(\<Union>c\<in>set (splitChunks 4 10). {chunk_start c..chunk_end c}) = {0..9}"
    using P [THEN conjunct2, THEN conjunct2, THEN conjunct2] by simp
  have "Suc 2 < length (splitChunks 4 10)" by (simp add: a)
  then have c: "chunk_start (splitChunks 4 10 ! Suc 2) = chunk_end (splitChunks 4 10 ! 2) + 1"
    using P [THEN conjunct2, THEN conjunct2, THEN conjunct1] by blast
  from a b c show ?thesis by blast
qed

text \<open>With fewer bytes than threads the trailing threads get no chunk.\<close>

lemma splitChunks_fewer_bytes_than_threads:
  "splitChunks 8 3 =
     [\<lparr>chunk_index = 0, chunk_start = 0, chunk_end = 0\<rparr>,
      \<lparr>chunk_index = 1, chunk_start = 1, chunk_end = 1\<rparr>,
      \<lparr>chunk_index = 2, chunk_start = 2, chunk_end = 2\<rparr>]"
  by (simp add: splitChunks_def splitChunks_loop.simps)



section \<open>Download URL allowlist (downloadManager.ts, validateDownloadURL)\<close>

text \<open>
  The two properties of a parsed \<open>URL\<close> object that the validator reads. The parser
  itself (\<open>new URL(url)\<close>) belongs to the platform; it is a parameter of the model,
  returning \<open>None\<close> where the constructor throws.
\<close>

record parsed_url =
  protocol :: string
  hostname :: string

type_synonym url_parser = "string \<Rightarrow> parsed_url option"

text \<open>\<open>str.split(sep)\<close> for a one-character separator: the pieces between the
  separators, empty pieces included; the empty string gives one empty piece.\<close>

fun split_on :: "char \<Rightarrow> string \<Rightarrow> string list" where
  "split_on sep [] = [[]]"
| "split_on sep (c # cs) =
     (if c = sep then [] # split_on sep cs
      else (case split_on sep cs of
              [] \<Rightarrow> [[c]]
            | p # ps \<Rightarrow> (c # p) # ps))"

text \<open>\<open>parts.join(sep)\<close>.\<close>

fun join_with :: "string \<Rightarrow> string list \<Rightarrow> string" where
  "join_with sep [] = []"
| "join_with sep [p] = p"
| "join_with sep (p # q # ps) = p @ sep @ join_with sep (q # ps)"

definition is_digit :: "char \<Rightarrow> bool" where
  "is_digit c = (let n = (of_char c :: nat) in 48 \<le> n \<and> n \<le> 57)"

text \<open>Case folding of the \<open>i\<close> flag on the letters of an ASCII pattern: only the upper
  case ASCII letter matches besides the letter itself.\<close>

definition ascii_lower :: "char \<Rightarrow> char" where
  "ascii_lower c =
     (let n = (of_char c :: nat) in if 65 \<le> n \<and> n \<le> 90 then char_of (n + 32) else c)"

text \<open>\<open>ALLOWED_DOWNLOAD_HOSTS_RE.test(h)\<close> for \<open>/\.apple\.com$/i\<close>.\<close>

definition ALLOWED_DOWNLOAD_HOSTS_RE_test :: "string \<Rightarrow> bool" where
  "ALLOWED_DOWNLOAD_HOSTS_RE_test h = suffix ''.apple.com'' (map ascii_lower h)"

text \<open>\<open>/^\d+\.\d+\.\d+\.\d+$/.test(h)\<close>: four non-empty runs of digits separated by
  three dots. A digit run holds no dot, so the match is the split of \<open>h\<close> at its dots.\<close>

definition digit_run :: "string \<Rightarrow> bool" where
  "digit_run s = (s \<noteq> [] \<and> list_all is_digit s)"

definition ipv4_RE_test :: "string \<Rightarrow> bool" where
  "ipv4_RE_test h =
     (case split_on (CHR ''.'') h of
        [a, b, c, d] \<Rightarrow> digit_run a \<and> digit_run b \<and> digit_run c \<and> digit_run d
      | _ \<Rightarrow> False)"

definition validateDownloadURL :: "url_parser \<Rightarrow> string \<Rightarrow> thrown + unit" where
  "validateDownloadURL parseURL url =
     (case parseURL url of
        None \<Rightarrow> Inl (new_Error ''Invalid download URL'')
      | Some parsed \<Rightarrow>
          if protocol parsed \<noteq> ''https:''
          then Inl (new_Error ''Download URL must use HTTPS'')
          else if \<not> ALLOWED_DOWNLOAD_HOSTS_RE_test (hostname parsed)
          then Inl (new_Error ''Download URL must be from an Apple domain (*.apple.com)'')
          else if ipv4_RE_test (hostname parsed) \<or> prefix ''['' (hostname parsed)
          then Inl (new_Error ''Download URL must not use IP addresses'')
          else Inr ())"

text \<open>
  What \<open>new URL\<close> returns on a few inputs (scheme and host lower-cased by the parser),
  for evaluating the validator on concrete URLs.
\<close>

definition sample_parseURL :: url_parser where
  "sample_parseURL = map_of
     [(''https://iosapps.itunes.apple.com/itunes-assets/app.ipa'',
         \<lparr>protocol = ''https:'', hostname = ''iosapps.itunes.apple.com''\<rparr>),
      (''http://iosapps.itunes.apple.com/app.ipa'',
         \<lparr>protocol = ''http:'', hostname = ''iosapps.itunes.apple.com''\<rparr>),
      (''https://apple.com.evil.example/app.ipa'',
         \<lparr>protocol = ''https:'', hostname = ''apple.com.evil.example''\<rparr>),
      (''https://17.253.144.10/app.ipa'',
         \<lparr>protocol = ''https:'', hostname = ''17.253.144.10''\<rparr>),
      (''https://[2620:149:af0::10]/app.ipa'',
         \<lparr>protocol = ''https:'', hostname = ''[2620:149:af0::10]''\<rparr>)]"


section \<open>Properties of the URL allowlist\<close>

lemma split_on_not_Nil [simp]: "split_on sep s \<noteq> []"
  by (induction s) (auto split: list.splits)

lemma split_on_no_sep: "sep \<notin> set a \<Longrightarrow> split_on sep a = [a]"
  by (induction a) (auto split: list.splits)

lemma split_on_append:
  "sep \<notin> set a \<Longrightarrow> split_on sep (a @ sep # r) = a # split_on sep r"
  by (induction a) (auto split: list.splits)

lemma split_on_pieces: "p \<in> set (split_on sep s) \<Longrightarrow> sep \<notin> set p"
  by (induction s arbitrary: p) (auto split: list.splits if_splits)

lemma join_with_Cons:
  "ps \<noteq> [] \<Longrightarrow> join_with sep (p # ps) = p @ sep @ join_with sep ps"
  by (cases ps) simp_all

lemma join_split_on: "join_with [sep] (split_on sep s) = s"
proof (induction s)
  case Nil
  show ?case by simp
next
  case (Cons c s)
  show ?case
  proof (cases "c = sep")
    case True
    with Cons show ?thesis by (simp add: join_with_Cons)
  next
    case False
    obtain p ps where sp: "split_on sep s = p # ps"
      by (cases "split_on sep s") simp_all
    with False Cons show ?thesis
      by (cases ps) simp_all
  qed
qed

lemma digit_run_no_dot: "digit_run a \<Longrightarrow> CHR ''.'' \<notin> set a"
  by (auto simp: digit_run_def list_all_iff is_digit_def)

text \<open>The split reading of the dotted-decimal pattern against its concatenation reading.\<close>

lemma ipv4_RE_test_iff:
  "ipv4_RE_test h \<longleftrightarrow>
     (\<exists>a b c d. h = a @ ''.'' @ b @ ''.'' @ c @ ''.'' @ d
        \<and> digit_run a \<and> digit_run b \<and> digit_run c \<and> digit_run d)"
proof
  assume "ipv4_RE_test h"
  then obtain a b c d where sp: "split_on (CHR ''.'') h = [a, b, c, d]"
    and runs: "digit_run a" "digit_run b" "digit_run c" "digit_run d"
    by (auto simp: ipv4_RE_test_def split: list.splits)
  have "join_with ''.'' (split_on (CHR ''.'') h) = h" by (rule join_split_on)
  with sp have "h = a @ ''.'' @ b @ ''.'' @ c @ ''.'' @ d" by simp
  with runs show "\<exists>a b c d. h = a @ ''.'' @ b @ ''.'' @ c @ ''.'' @ d
        \<and> digit_run a \<and> digit_run b \<and> digit_run c \<and> digit_run d" by blast
next
  assume "\<exists>a b c d. h = a @ ''.'' @ b @ ''.'' @ c @ ''.'' @ d
        \<and> digit_run a \<and> digit_run b \<and> digit_run c \<and> digit_run d"
  then obtain a b c d where h: "h = a @ ''.'' @ b @ ''.'' @ c @ ''.'' @ d"
    and runs: "digit_run a" "digit_run b" "digit_run c" "digit_run d"
    by blast
  have "split_on (CHR ''.'') h = [a, b, c, d]"
    unfolding h using runs
    by (simp add: split_on_append split_on_no_sep digit_run_no_dot)
  with runs show "ipv4_RE_test h" by (simp add: ipv4_RE_test_def)
qed

lemma ALLOWED_DOWNLOAD_HOSTS_RE_test_iff:
  "ALLOWED_DOWNLOAD_HOSTS_RE_test h \<longleftrightarrow> (\<exists>p. map ascii_lower h = p @ ''.apple.com'')"
  by (simp add: ALLOWED_DOWNLOAD_HOSTS_RE_test_def suffix_def)

text \<open>
  Claim C5. For every input string, the validator fails when the URL does not parse,
  when the scheme is not https, when the hostname does not end in \<open>.apple.com\<close> up to
  the case of ASCII letters, and when the hostname is a dotted-decimal IPv4 literal or
  begins with an opening bracket; so a URL it accepts parses, has the scheme https, has
  a hostname ending in \<open>.apple.com\<close> up to case, and has a hostname that is no IP
  literal.
\<close>

theorem validateDownloadURL_allowlist:
  "(parseURL url = None \<longrightarrow> validateDownloadURL parseURL url \<noteq> Inr ())
   \<and> (\<forall>u. parseURL url = Some u \<and> protocol u \<noteq> ''https:''
         \<longrightarrow> validateDownloadURL parseURL url \<noteq> Inr ())
   \<and> (\<forall>u. parseURL url = Some u \<and> \<not> (\<exists>p. map ascii_lower (hostname u) = p @ ''.apple.com'')
         \<longrightarrow> validateDownloadURL parseURL url \<noteq> Inr ())
   \<and> (\<forall>u. parseURL url = Some u
           \<and> ((\<exists>a b c d. hostname u = a @ ''.'' @ b @ ''.'' @ c @ ''.'' @ d
                  \<and> digit_run a \<and> digit_run b \<and> digit_run c \<and> digit_run d)
               \<or> (\<exists>r. hostname u = CHR ''['' # r))
         \<longrightarrow> validateDownloadURL parseURL url \<noteq> Inr ())
   \<and> (validateDownloadURL parseURL url = Inr ()
         \<longrightarrow> (\<exists>u. parseURL url = Some u \<and> protocol u = ''https:''
                 \<and> (\<exists>p. map ascii_lower (hostname u) = p @ ''.apple.com'')
                 \<and> \<not> (\<exists>a b c d. hostname u = a @ ''.'' @ b @ ''.'' @ c @ ''.'' @ d
                          \<and> digit_run a \<and> digit_run b \<and> digit_run c \<and> digit_run d)
                 \<and> (\<forall>r. hostname u \<noteq> CHR ''['' # r)))"
proof -
  have bracket: "prefix ''['' h \<longleftrightarrow> (\<exists>r. h = CHR ''['' # r)" for h
    by (cases h) auto
  have unparsed: "parseURL url = None \<longrightarrow> validateDownloadURL parseURL url \<noteq> Inr ()"
    by (simp add: validateDownloadURL_def)
  have scheme: "\<forall>u. parseURL url = Some u \<and> protocol u \<noteq> ''https:''
         \<longrightarrow> validateDownloadURL parseURL url \<noteq> Inr ()"
    by (simp add: validateDownloadURL_def)
  have domain: "\<forall>u. parseURL url = Some u
           \<and> \<not> (\<exists>p. map ascii_lower (hostname u) = p @ ''.apple.com'')
         \<longrightarrow> validateDownloadURL parseURL url \<noteq> Inr ()"
    by (simp add: validateDownloadURL_def ALLOWED_DOWNLOAD_HOSTS_RE_test_iff)
  have literal: "\<forall>u. parseURL url = Some u
           \<and> ((\<exists>a b c d. hostname u = a @ ''.'' @ b @ ''.'' @ c @ ''.'' @ d
                  \<and> digit_run a \<and> digit_run b \<and> digit_run c \<and> digit_run d)
               \<or> (\<exists>r. hostname u = CHR ''['' # r))
         \<longrightarrow> validateDownloadURL parseURL url \<noteq> Inr ()"
    unfolding ipv4_RE_test_iff [symmetric] bracket [symmetric]
    by (simp add: validateDownloadURL_def)
  have accepted: "validateDownloadURL parseURL url = Inr ()
         \<longrightarrow> (\<exists>u. parseURL url = Some u \<and> protocol u = ''https:''
                 \<and> (\<exists>p. map ascii_lower (hostname u) = p @ ''.apple.com'')
                 \<and> \<not> (\<exists>a b c d. hostname u = a @ ''.'' @ b @ ''.'' @ c @ ''.'' @ d
                          \<and> digit_run a \<and> digit_run b \<and> digit_run c \<and> digit_run d)
                 \<and> (\<forall>r. hostname u \<noteq> CHR ''['' # r))"
    unfolding ipv4_RE_test_iff [symmetric] ALLOWED_DOWNLOAD_HOSTS_RE_test_iff [symmetric]
    by (auto simp: validateDownloadURL_def bracket split: option.splits if_splits)
  from unparsed scheme domain literal accepted show ?thesis
    by (intro conjI)
qed


lemmas validate_eval =
  validateDownloadURL_def sample_parseURL_def ALLOWED_DOWNLOAD_HOSTS_RE_test_def
  ascii_lower_def suffix_to_prefix ipv4_RE_test_def digit_run_def is_digit_def

theorem validateDownloadURL_allowlist_witness:
  "validateDownloadURL sample_parseURL ''not a url'' \<noteq> Inr ()
   \<and> validateDownloadURL sample_parseURL ''http://iosapps.itunes.apple.com/app.ipa'' \<noteq> Inr ()
   \<and> validateDownloadURL sample_parseURL ''https://apple.com.evil.example/app.ipa'' \<noteq> Inr ()
   \<and> validateDownloadURL sample_parseURL ''https://17.253.144.10/app.ipa'' \<noteq> Inr ()
   \<and> validateDownloadURL sample_parseURL ''https://[2620:149:af0::10]/app.ipa'' \<noteq> Inr ()
   \<and> validateDownloadURL sample_parseURL
        ''https://iosapps.itunes.apple.com/itunes-assets/app.ipa'' = Inr ()
   \<and> (\<exists>u. sample_parseURL ''https://iosapps.itunes.apple.com/itunes-assets/app.ipa'' = Some u
          \<and> protocol u = ''https:''
          \<and> (\<exists>p. map ascii_lower (hostname u) = p @ ''.apple.com''))"
proof -
  note T = validateDownloadURL_allowlist [where parseURL = sample_parseURL]
  have a: "validateDownloadURL sample_parseURL ''not a url'' \<noteq> Inr ()"
    by (rule T [THEN conjunct1, THEN mp]) (simp add: sample_parseURL_def)
  have b: "validateDownloadURL sample_parseURL ''http://iosapps.itunes.apple.com/app.ipa''
            \<noteq> Inr ()"
    by (rule T [THEN conjunct2, THEN conjunct1, rule_format,
          where u = "\<lparr>protocol = ''http:'', hostname = ''iosapps.itunes.apple.com''\<rparr>"])
       (simp add: sample_parseURL_def)
  have c: "validateDownloadURL sample_parseURL ''https://apple.com.evil.example/app.ipa''
            \<noteq> Inr ()"
    by (rule T [THEN conjunct2, THEN conjunct2, THEN conjunct1, rule_format,
          where u = "\<lparr>protocol = ''https:'', hostname = ''apple.com.evil.example''\<rparr>"])
       (simp add: sample_parseURL_def ascii_lower_def suffix_def [symmetric] suffix_to_prefix)
  have d: "validateDownloadURL sample_parseURL ''https://17.253.144.10/app.ipa'' \<noteq> Inr ()"
  proof (rule T [THEN conjunct2, THEN conjunct2, THEN conjunct2, THEN conjunct1, rule_format,
          where u = "\<lparr>protocol = ''https:'', hostname = ''17.253.144.10''\<rparr>"])
    have "''17.253.144.10'' = ''17'' @ ''.'' @ ''253'' @ ''.'' @ ''144'' @ ''.'' @ ''10''"
      by simp
    moreover have "digit_run ''17''" "digit_run ''253''" "digit_run ''144''" "digit_run ''10''"
      by (simp_all add: digit_run_def is_digit_def)
    ultimately have "\<exists>a b c d. ''17.253.144.10'' = a @ ''.'' @ b @ ''.'' @ c @ ''.'' @ d
        \<and> digit_run a \<and> digit_run b \<and> digit_run c \<and> digit_run d"
      by blast
    then show "sample_parseURL ''https://17.253.144.10/app.ipa''
          = Some \<lparr>protocol = ''https:'', hostname = ''17.253.144.10''\<rparr>
        \<and> ((\<exists>a b c d. hostname \<lparr>protocol = ''https:'', hostname = ''17.253.144.10''\<rparr>
                 = a @ ''.'' @ b @ ''.'' @ c @ ''.'' @ d
               \<and> digit_run a \<and> digit_run b \<and> digit_run c \<and> digit_run d)
            \<or> (\<exists>r. hostname \<lparr>protocol = ''https:'', hostname = ''17.253.144.10''\<rparr>
                 = CHR ''['' # r))"
      by (simp add: sample_parseURL_def)
  qed
  have e: "validateDownloadURL sample_parseURL ''https://[2620:149:af0::10]/app.ipa'' \<noteq> Inr ()"
    by (rule T [THEN conjunct2, THEN conjunct2, THEN conjunct2, THEN conjunct1, rule_format,
          where u = "\<lparr>protocol = ''https:'', hostname = ''[2620:149:af0::10]''\<rparr>"])
       (simp add: sample_parseURL_def)
  have f: "validateDownloadURL sample_parseURL
        ''https://iosapps.itunes.apple.com/itunes-assets/app.ipa'' = Inr ()"
    by (simp add: validate_eval)
  from T [THEN conjunct2, THEN conjunct2, THEN conjunct2, THEN conjunct2, THEN mp, OF f]
  have g: "\<exists>u. sample_parseURL ''https://iosapps.itunes.apple.com/itunes-assets/app.ipa'' = Some u
          \<and> protocol u = ''https:''
          \<and> (\<exists>p. map ascii_lower (hostname u) = p @ ''.apple.com'')"
    by blast
  from a b c d e f g show ?thesis by (intro conjI)
qed



section \<open>Chunk download with retries (chunkedDownloader.ts, downloadChunk)\<close>

text \<open>
  \<open>downloadChunk\<close> suspends at the fetch (with the streaming of its body) and at the
  retry delay. Between two suspension points it runs without interruption; while it is
  suspended the environment acts: the fetch settles, the timer of the delay fires, the
  caller's \<open>AbortSignal\<close> is aborted, or \<open>abort()\<close> is called on the downloader. The model
  is the state of one call and a function that advances it by one such event.

  The abort event of a signal is dispatched once, when the signal is aborted, to the
  listeners registered at that moment; a listener added to a signal that is already
  aborted is never called. The call registers its listener at the start of each attempt
  and removes it in \<open>finally\<close>, which runs after the retry delay: during the fetch
  and during the delay the listener is registered and the controller of the attempt is
  among those that \<open>abort()\<close> aborts.
\<close>

definition CHUNK_RETRY_COUNT :: nat where
  "CHUNK_RETRY_COUNT = 3"

definition CHUNK_RETRY_DELAY_MS :: nat where
  "CHUNK_RETRY_DELAY_MS = 2000"

text \<open>What the call has done so far that the claim speaks of: the fetches it issued,
  with the attempt number, and the delays it started, in milliseconds.\<close>

datatype chunk_action = Fetch nat | Delay nat

text \<open>Where the call stands: awaiting the fetch of an attempt, awaiting the timer of a
  delay, returned, or rejected with a value.\<close>

datatype chunk_pc = Fetching | Delaying | Returned | Threw thrown

record chunk_call =
  pc :: chunk_pc
  attempt :: nat
  aborted :: bool \<comment> \<open>\<open>this.aborted\<close> of the downloader\<close>
  signal_aborted :: bool \<comment> \<open>\<open>signal.aborted\<close> of the caller's signal\<close>
  ac_aborted :: bool \<comment> \<open>\<open>ac.signal.aborted\<close> of the controller of the current attempt\<close>
  lastErr :: "thrown option"
  actions :: "chunk_action list"

datatype chunk_event =
    FetchSettles "thrown option" \<comment> \<open>the fetch and the pipeline finish (\<open>None\<close>) or reject\<close>
  | TimerFires
  | SignalAborts \<comment> \<open>the caller's controller is aborted\<close>
  | AbortCalled \<comment> \<open>\<open>abort()\<close> of the downloader\<close>

text \<open>The decimal digits of a non-negative integer, as a template literal prints it.\<close>

fun decimal :: "nat \<Rightarrow> string" where
  "decimal n =
     (if n < 10 then [char_of (48 + n)]
      else decimal (n div 10) @ [char_of (48 + n mod 10)])"

declare decimal.simps [simp del]

text \<open>The head of the \<open>for\<close> loop up to the \<open>await fetch\<close>: the loop condition, the
  check of \<open>this.aborted\<close>, a fresh controller, the listener, the request.\<close>

definition loop_head :: "ChunkRange \<Rightarrow> chunk_call \<Rightarrow> chunk_call" where
  "loop_head chunk c =
     (if attempt c < CHUNK_RETRY_COUNT then
        (if aborted c then c\<lparr>pc := Threw (new_Error ''Aborted'')\<rparr>
         else c\<lparr>pc := Fetching, ac_aborted := False,
                 actions := actions c @ [Fetch (attempt c)]\<rparr>)
      else c\<lparr>pc := Threw (case lastErr c of
                             Some e \<Rightarrow> e
                           | None \<Rightarrow> new_Error (''Chunk '' @ decimal (nat (chunk_index chunk))
                                        @ '' failed after retries''))\<rparr>)"

text \<open>\<open>err instanceof Error ? err : new Error(String(err))\<close>.\<close>

fun as_Error :: "thrown \<Rightarrow> thrown" where
  "as_Error (ErrorObj n m) = ErrorObj n m"
| "as_Error (NonErrorValue v) = new_Error v"

text \<open>The \<open>catch\<close> block, \<open>finally\<close> and the loop increment after a rejected attempt.\<close>

definition on_failure :: "ChunkRange \<Rightarrow> thrown \<Rightarrow> chunk_call \<Rightarrow> chunk_call" where
  "on_failure chunk err c =
     (let e = as_Error err; c1 = c\<lparr>lastErr := Some e\<rparr>
      in if err_name e = ''AbortError'' \<or> aborted c1 then c1\<lparr>pc := Threw e\<rparr>
         else if attempt c1 < CHUNK_RETRY_COUNT - 1
         then c1\<lparr>pc := Delaying, actions := actions c1 @ [Delay CHUNK_RETRY_DELAY_MS]\<rparr>
         else loop_head chunk (c1\<lparr>attempt := attempt c1 + 1\<rparr>))"

fun chunk_step :: "ChunkRange \<Rightarrow> chunk_event \<Rightarrow> chunk_call \<Rightarrow> chunk_call" where
  "chunk_step chunk (FetchSettles outcome) c =
     (if pc c = Fetching then
        (case outcome of
           None \<Rightarrow> c\<lparr>pc := Returned\<rparr>
         | Some err \<Rightarrow> on_failure chunk err c)
      else c)"
| "chunk_step chunk TimerFires c =
     (if pc c = Delaying then loop_head chunk (c\<lparr>attempt := attempt c + 1\<rparr>) else c)"
| "chunk_step chunk SignalAborts c =
     (if signal_aborted c then c
      else if pc c = Fetching \<or> pc c = Delaying
      then c\<lparr>signal_aborted := True, ac_aborted := True\<rparr>
      else c\<lparr>signal_aborted := True\<rparr>)"
| "chunk_step chunk AbortCalled c =
     (if pc c = Fetching \<or> pc c = Delaying then c\<lparr>aborted := True, ac_aborted := True\<rparr>
      else c\<lparr>aborted := True\<rparr>)"

text \<open>A call of \<open>downloadChunk\<close>, given the two flags at the time of the call, run
  against a sequence of events.\<close>

definition downloadChunk_start :: "ChunkRange \<Rightarrow> bool \<Rightarrow> bool \<Rightarrow> chunk_call" where
  "downloadChunk_start chunk flag sig =
     loop_head chunk
       \<lparr>pc = Fetching, attempt = 0, aborted = flag, signal_aborted = sig,
        ac_aborted = False, lastErr = None, actions = []\<rparr>"

definition downloadChunk :: "ChunkRange \<Rightarrow> bool \<Rightarrow> bool \<Rightarrow> chunk_event list \<Rightarrow> chunk_call" where
  "downloadChunk chunk flag sig events =
     fold (chunk_step chunk) events (downloadChunk_start chunk flag sig)"

section \<open>Properties of the retry loop\<close>

fun is_Fetch :: "chunk_action \<Rightarrow> bool" where
  "is_Fetch (Fetch n) = True"
| "is_Fetch (Delay ms) = False"

text \<open>What holds of a call at every suspension point: the fetches issued are one more
  than the attempt counter while the call is pending, never more than the retry count,
  a delay is only started when another attempt is left, and every delay is the
  configured one.\<close>

definition chunk_inv :: "chunk_call \<Rightarrow> bool" where
  "chunk_inv c =
     (length (filter is_Fetch (actions c)) \<le> CHUNK_RETRY_COUNT
      \<and> ((pc c = Fetching \<or> pc c = Delaying)
           \<longrightarrow> length (filter is_Fetch (actions c)) = attempt c + 1)
      \<and> (pc c = Delaying \<longrightarrow> attempt c + 1 < CHUNK_RETRY_COUNT)
      \<and> (\<forall>ms. Delay ms \<in> set (actions c) \<longrightarrow> ms = CHUNK_RETRY_DELAY_MS))"

lemma chunk_inv_start: "chunk_inv (downloadChunk_start chunk flag sig)"
  by (simp add: chunk_inv_def downloadChunk_start_def loop_head_def CHUNK_RETRY_COUNT_def)

lemma chunk_inv_step: "chunk_inv c \<Longrightarrow> chunk_inv (chunk_step chunk ev c)"
proof (cases ev)
  case (FetchSettles outcome)
  assume "chunk_inv c"
  then show ?thesis
    unfolding FetchSettles
    by (cases outcome)
       (auto simp: chunk_inv_def on_failure_def loop_head_def Let_def CHUNK_RETRY_COUNT_def)
next
  case TimerFires
  assume "chunk_inv c"
  then show ?thesis
    unfolding TimerFires
    by (auto simp: chunk_inv_def loop_head_def CHUNK_RETRY_COUNT_def)
next
  case SignalAborts
  assume "chunk_inv c"
  then show ?thesis
    unfolding SignalAborts by (auto simp: chunk_inv_def)
next
  case AbortCalled
  assume "chunk_inv c"
  then show ?thesis
    unfolding AbortCalled by (auto simp: chunk_inv_def)
qed

lemma chunk_inv_fold:
  "chunk_inv c \<Longrightarrow> chunk_inv (fold (chunk_step chunk) events c)"
  by (induction events arbitrary: c) (simp_all add: chunk_inv_step)

text \<open>At most three fetches, whatever happens, and no delay but the two-second one.\<close>

lemma downloadChunk_attempts_bounded:
  "length (filter is_Fetch (actions (downloadChunk chunk flag sig events))) \<le> 3
   \<and> (\<forall>ms. Delay ms \<in> set (actions (downloadChunk chunk flag sig events)) \<longrightarrow> ms = 2000)"
  using chunk_inv_fold [OF chunk_inv_start, of chunk events chunk flag sig]
  by (simp add: chunk_inv_def downloadChunk_def CHUNK_RETRY_COUNT_def CHUNK_RETRY_DELAY_MS_def)

text \<open>A rejection with an \<open>AbortError\<close>, or any rejection once \<open>abort()\<close> has been
  called, ends the call at once with that error: no delay and no further fetch.\<close>

lemma on_failure_abort:
  "pc c = Fetching \<Longrightarrow> err_name (as_Error err) = ''AbortError'' \<or> aborted c \<Longrightarrow>
     chunk_step chunk (FetchSettles (Some err)) c
       = c\<lparr>lastErr := Some (as_Error err), pc := Threw (as_Error err)\<rparr>"
  by (auto simp: on_failure_def Let_def)

text \<open>With \<open>abort()\<close> called during a delay, the call ends when the timer fires.\<close>

lemma abort_during_delay:
  "pc c = Delaying \<Longrightarrow> attempt c + 1 < CHUNK_RETRY_COUNT \<Longrightarrow>
     chunk_step chunk TimerFires (chunk_step chunk AbortCalled c)
       = c\<lparr>aborted := True, ac_aborted := True, attempt := attempt c + 1,
           pc := Threw (new_Error ''Aborted'')\<rparr>"
  by (simp add: loop_head_def)

text \<open>The third rejection, when nothing was aborted, is the error of the call.\<close>

lemma third_failure_propagates:
  "pc c = Fetching \<Longrightarrow> attempt c = 2 \<Longrightarrow> \<not> aborted c \<Longrightarrow>
   err_name (as_Error err) \<noteq> ''AbortError'' \<Longrightarrow>
     pc (chunk_step chunk (FetchSettles (Some err)) c) = Threw (as_Error err)"
  by (simp add: on_failure_def loop_head_def Let_def CHUNK_RETRY_COUNT_def)

text \<open>
  Claim C8 at the input where the code departs from it: the first attempt of chunk 2
  fails with HTTP 500, the caller's signal is aborted during the two-second delay
  (\<open>abort()\<close> of the downloader is not called), and the timer fires. The listener of the
  second attempt is added to a signal that is already aborted, so the controller of the
  attempt is not aborted and the fetch goes out: a further attempt after the abort.
\<close>

theorem downloadChunk_fetches_after_signal_abort:
  "pc (downloadChunk \<lparr>chunk_index = 2, chunk_start = 6, chunk_end = 8\<rparr> False False
         [FetchSettles (Some (new_Error ''Chunk 2: HTTP 500'')), SignalAborts, TimerFires])
     = Fetching
   \<and> signal_aborted (downloadChunk \<lparr>chunk_index = 2, chunk_start = 6, chunk_end = 8\<rparr>
         False False
         [FetchSettles (Some (new_Error ''Chunk 2: HTTP 500'')), SignalAborts, TimerFires])
   \<and> \<not> ac_aborted (downloadChunk \<lparr>chunk_index = 2, chunk_start = 6, chunk_end = 8\<rparr>
         False False
         [FetchSettles (Some (new_Error ''Chunk 2: HTTP 500'')), SignalAborts, TimerFires])
   \<and> actions (downloadChunk \<lparr>chunk_index = 2, chunk_start = 6, chunk_end = 8\<rparr> False False
         [FetchSettles (Some (new_Error ''Chunk 2: HTTP 500'')), SignalAborts, TimerFires])
     = [Fetch 0, Delay 2000, Fetch 1]"
  by (simp add: downloadChunk_def downloadChunk_start_def loop_head_def on_failure_def
      new_Error_def CHUNK_RETRY_COUNT_def CHUNK_RETRY_DELAY_MS_def)



section \<open>POSIX paths (the platform's path module)\<close>

text \<open>
  The service runs on Linux, where \<open>path\<close> is \<open>path.posix\<close> and \<open>path.sep\<close> is the slash.
  The functions below follow the library: \<open>normalizeString\<close> walks the segments of a path
  with a stack, dropping empty segments and \<open>.\<close>, and letting \<open>..\<close> remove the segment
  before it; above the start of a relative path \<open>..\<close> is kept, above the root it is
  dropped. The stack is the list of segments, the last one on top.
\<close>

definition path_sep :: string where
  "path_sep = ''/''"

definition norm_step :: "bool \<Rightarrow> string list \<Rightarrow> string \<Rightarrow> string list" where
  "norm_step allowAboveRoot acc seg =
     (if seg = [] \<or> seg = ''.'' then acc
      else if seg = ''..'' then
        (if acc \<noteq> [] \<and> last acc \<noteq> ''..'' then butlast acc
         else if allowAboveRoot then acc @ [''..'']
         else acc)
      else acc @ [seg])"

definition normalizeString :: "string \<Rightarrow> bool \<Rightarrow> string list" where
  "normalizeString p allowAboveRoot =
     foldl (norm_step allowAboveRoot) [] (split_on (CHR ''/'') p)"

definition isAbsolute :: "string \<Rightarrow> bool" where
  "isAbsolute p = (case p of [] \<Rightarrow> False | c # cs \<Rightarrow> c = CHR ''/'')"

definition path_normalize :: "string \<Rightarrow> string" where
  "path_normalize p =
     (if p = [] then ''.''
      else (let absolute = isAbsolute p;
                trailingSeparator = (last p = CHR ''/'');
                segs = normalizeString p (\<not> absolute)
            in if segs = [] then (if absolute then ''/'' else if trailingSeparator then ''./'' else ''.'')
               else (if absolute then ''/'' else [])
                    @ join_with ''/'' segs
                    @ (if trailingSeparator then ''/'' else [])))"

text \<open>\<open>path.join(...args)\<close>: the non-empty arguments joined by slashes, normalized.\<close>

definition path_join :: "string list \<Rightarrow> string" where
  "path_join args =
     (let parts = filter (\<lambda>a. a \<noteq> []) args
      in if parts = [] then ''.'' else path_normalize (join_with ''/'' parts))"

text \<open>\<open>path.resolve(p)\<close> in a process whose working directory is the absolute path
  \<open>cwd\<close>: the segments of the absolute path, and the path itself.\<close>

definition resolve_segments :: "string \<Rightarrow> string \<Rightarrow> string list" where
  "resolve_segments cwd p =
     normalizeString (if isAbsolute p then p else cwd @ ''/'' @ p) False"

definition path_resolve :: "string \<Rightarrow> string \<Rightarrow> string" where
  "path_resolve cwd p = ''/'' @ join_with ''/'' (resolve_segments cwd p)"




section \<open>Properties of the path functions\<close>

text \<open>A segment that normalization keeps as it is: not empty, without a slash, and
  neither \<open>.\<close> nor \<open>..\<close>.\<close>

definition plain_segment :: "string \<Rightarrow> bool" where
  "plain_segment s = (s \<noteq> [] \<and> CHR ''/'' \<notin> set s \<and> s \<noteq> ''.'' \<and> s \<noteq> ''..'')"

lemma split_on_append_sep:
  "split_on sep (a @ sep # r) = split_on sep a @ split_on sep r"
proof (induction a)
  case Nil
  show ?case by simp
next
  case (Cons x a)
  obtain p ps where sp: "split_on sep a = p # ps"
    by (cases "split_on sep a") simp_all
  with Cons show ?case by simp
qed

lemma split_on_join:
  "xs \<noteq> [] \<Longrightarrow> \<forall>x\<in>set xs. sep \<notin> set x \<Longrightarrow> split_on sep (join_with [sep] xs) = xs"
proof (induction xs)
  case Nil
  then show ?case by simp
next
  case (Cons x xs)
  show ?case
  proof (cases "xs = []")
    case True
    with Cons.prems show ?thesis by (simp add: split_on_no_sep)
  next
    case False
    with Cons show ?thesis
      by (simp add: join_with_Cons split_on_append)
  qed
qed

lemma join_with_append:
  "xs \<noteq> [] \<Longrightarrow> ys \<noteq> [] \<Longrightarrow>
     join_with sep (xs @ ys) = join_with sep xs @ sep @ join_with sep ys"
proof (induction xs)
  case Nil
  then show ?case by simp
next
  case (Cons x xs)
  show ?case
  proof (cases "xs = []")
    case True
    with Cons.prems show ?thesis by (simp add: join_with_Cons)
  next
    case False
    with Cons show ?thesis by (simp add: join_with_Cons)
  qed
qed

lemma foldl_norm_step_plain:
  "\<forall>s\<in>set segs. plain_segment s \<Longrightarrow> foldl (norm_step b) acc segs = acc @ segs"
  by (induction segs arbitrary: acc) (simp_all add: norm_step_def plain_segment_def)

text \<open>Normalization never leaves an empty segment or a dot.\<close>

definition kept_segment :: "string \<Rightarrow> bool" where
  "kept_segment s = (s \<noteq> [] \<and> s \<noteq> ''.'')"

lemma norm_step_kept:
  "\<forall>s\<in>set acc. kept_segment s \<Longrightarrow> \<forall>s\<in>set (norm_step b acc seg). kept_segment s"
  by (auto simp: norm_step_def kept_segment_def dest: in_set_butlastD)

lemma foldl_norm_step_kept:
  "\<forall>s\<in>set acc. kept_segment s \<Longrightarrow> \<forall>s\<in>set (foldl (norm_step b) acc segs). kept_segment s"
proof (induction segs arbitrary: acc)
  case Nil
  then show ?case by simp
next
  case (Cons seg segs)
  have "\<forall>s\<in>set (norm_step b acc seg). kept_segment s"
    using Cons.prems by (rule norm_step_kept)
  then show ?case using Cons.IH by simp
qed

lemma normalizeString_kept: "\<forall>s\<in>set (normalizeString p b). kept_segment s"
  unfolding normalizeString_def
  by (rule foldl_norm_step_kept) simp

text \<open>Below the root nothing but plain segments is left.\<close>

lemma norm_step_plain:
  "\<forall>s\<in>set acc. plain_segment s \<Longrightarrow> CHR ''/'' \<notin> set seg \<Longrightarrow>
     \<forall>s\<in>set (norm_step False acc seg). plain_segment s"
  by (auto simp: norm_step_def plain_segment_def dest: in_set_butlastD)

lemma foldl_norm_step_False_plain:
  "\<forall>s\<in>set acc. plain_segment s \<Longrightarrow> \<forall>s\<in>set segs. CHR ''/'' \<notin> set s \<Longrightarrow>
     \<forall>s\<in>set (foldl (norm_step False) acc segs). plain_segment s"
proof (induction segs arbitrary: acc)
  case Nil
  then show ?case by simp
next
  case (Cons seg segs)
  have "\<forall>s\<in>set (norm_step False acc seg). plain_segment s"
    using Cons.prems by (intro norm_step_plain) simp_all
  then show ?case using Cons by simp
qed

lemma normalizeString_False_plain: "\<forall>s\<in>set (normalizeString p False). plain_segment s"
  unfolding normalizeString_def
  by (rule foldl_norm_step_False_plain) (auto dest: split_on_pieces)

text \<open>Resolving a path that was normalized as a relative path gives what resolving the
  path itself gives: the stack of the resolution ends in the same state.\<close>

lemma resolve_after_normalize:
  "foldl (norm_step False) st (foldl (norm_step True) [] ys) = foldl (norm_step False) st ys"
proof (induction ys rule: rev_induct)
  case Nil
  show ?case by simp
next
  case (snoc y ys)
  define zs where "zs = foldl (norm_step True) [] ys"
  have IH: "foldl (norm_step False) st zs = foldl (norm_step False) st ys"
    unfolding zs_def by (rule snoc.IH)
  have goal: "foldl (norm_step False) st (norm_step True zs y)
              = norm_step False (foldl (norm_step False) st zs) y"
  proof (cases "y = [] \<or> y = ''.''")
    case True
    then show ?thesis by (auto simp: norm_step_def)
  next
    case regular: False
    show ?thesis
    proof (cases "y = ''..''")
      case False
      with regular show ?thesis by (simp add: norm_step_def)
    next
      case dots: True
      show ?thesis
      proof (cases "zs \<noteq> [] \<and> last zs \<noteq> ''..''")
        case False
        with dots show ?thesis by (auto simp: norm_step_def)
      next
        case True
        have push: "foldl (norm_step False) st (xs @ [x]) = foldl (norm_step False) st xs @ [x]"
          if "x \<noteq> []" "x \<noteq> ''.''" "x \<noteq> ''..''" for xs x
          using that by (simp add: norm_step_def)
        have "last zs \<noteq> []" "last zs \<noteq> ''.''"
          using True foldl_norm_step_kept [of "[]" True ys] last_in_set [of zs]
          by (auto simp: zs_def kept_segment_def)
        then have "foldl (norm_step False) st (butlast zs @ [last zs])
            = foldl (norm_step False) st (butlast zs) @ [last zs]"
          using True by (intro push) simp_all
        then have top: "foldl (norm_step False) st zs
            = foldl (norm_step False) st (butlast zs) @ [last zs]"
          using True by simp
        have "norm_step True zs y = butlast zs"
          using True dots by (simp add: norm_step_def)
        moreover have "norm_step False (foldl (norm_step False) st zs) y
            = foldl (norm_step False) st (butlast zs)"
          using True dots by (simp add: top norm_step_def)
        ultimately show ?thesis by simp
      qed
    qed
  qed
  show ?case
    using goal IH by (simp add: zs_def)
qed


lemma join_with_ends:
  "segs \<noteq> [] \<Longrightarrow> \<exists>pre. join_with sep segs = pre @ last segs"
proof (induction segs)
  case Nil
  then show ?case by simp
next
  case (Cons x xs)
  show ?case
  proof (cases "xs = []")
    case True
    then show ?thesis by simp
  next
    case False
    with Cons.IH obtain pre where "join_with sep xs = pre @ last xs" by blast
    with False have "join_with sep (x # xs) = (x @ sep @ pre) @ last (x # xs)"
      by (simp add: join_with_Cons)
    then show ?thesis by blast
  qed
qed

lemma join_with_starts:
  "segs \<noteq> [] \<Longrightarrow> \<exists>post. join_with sep segs = hd segs @ post"
proof (cases segs)
  case Nil
  assume "segs \<noteq> []"
  with Nil show ?thesis by simp
next
  case (Cons x xs)
  show ?thesis
  proof (cases "xs = []")
    case True
    with Cons show ?thesis by simp
  next
    case False
    with Cons show ?thesis by (simp add: join_with_Cons)
  qed
qed

lemma join_plain_last:
  assumes "segs \<noteq> []" "\<forall>s\<in>set segs. plain_segment s"
  shows "join_with sep segs \<noteq> [] \<and> last (join_with sep segs) \<noteq> CHR ''/''"
proof -
  from assms(1) obtain pre where j: "join_with sep segs = pre @ last segs"
    using join_with_ends by blast
  have "last segs \<in> set segs" using assms(1) by simp
  then have pl: "last segs \<noteq> []" "CHR ''/'' \<notin> set (last segs)"
    using assms(2) by (auto simp: plain_segment_def)
  have "last (last segs) \<noteq> CHR ''/''"
    using pl(2) last_in_set [OF pl(1)] by metis
  with pl j show ?thesis by simp
qed

lemma join_plain_hd:
  assumes "segs \<noteq> []" "\<forall>s\<in>set segs. s \<noteq> [] \<and> CHR ''/'' \<notin> set s"
  shows "\<not> isAbsolute (join_with sep segs)"
proof -
  from assms(1) obtain post where j: "join_with sep segs = hd segs @ post"
    using join_with_starts by blast
  have "hd segs \<in> set segs" using assms(1) by simp
  then have pl: "hd segs \<noteq> []" "CHR ''/'' \<notin> set (hd segs)"
    using assms(2) by auto
  then obtain c cs where h: "hd segs = c # cs" by (cases "hd segs") simp_all
  with pl have "c \<noteq> CHR ''/''" by auto
  with j h show ?thesis by (simp add: isAbsolute_def)
qed

lemma norm_step_subset:
  "set (norm_step b acc seg) \<subseteq> insert seg (set acc)"
  by (auto simp: norm_step_def dest: in_set_butlastD)

lemma foldl_norm_step_subset:
  "set (foldl (norm_step b) acc segs) \<subseteq> set acc \<union> set segs"
proof (induction segs arbitrary: acc)
  case Nil
  show ?case by simp
next
  case (Cons seg segs)
  have "set (foldl (norm_step b) (norm_step b acc seg) segs)
        \<subseteq> set (norm_step b acc seg) \<union> set segs"
    by (rule Cons.IH)
  also have "\<dots> \<subseteq> insert seg (set acc) \<union> set segs"
    using norm_step_subset [of b acc seg] by blast
  finally show ?case by auto
qed

lemma normalizeString_noslash: "\<forall>s\<in>set (normalizeString p b). CHR ''/'' \<notin> set s"
proof
  fix s assume "s \<in> set (normalizeString p b)"
  then have "s \<in> set (split_on (CHR ''/'') p)"
    using foldl_norm_step_subset [of b "[]" "split_on (CHR ''/'') p"]
    by (auto simp: normalizeString_def)
  then show "CHR ''/'' \<notin> set s" by (rule split_on_pieces)
qed

lemma normalizeString_join:
  assumes "segs \<noteq> []" "\<forall>s\<in>set segs. plain_segment s"
  shows "normalizeString (p @ ''/'' @ join_with ''/'' segs) b = normalizeString p b @ segs"
proof -
  have "split_on (CHR ''/'') (join_with ''/'' segs) = segs"
    using assms by (intro split_on_join) (auto simp: plain_segment_def)
  then have "split_on (CHR ''/'') (p @ ''/'' @ join_with ''/'' segs)
      = split_on (CHR ''/'') p @ segs"
    by (simp add: split_on_append_sep)
  then show ?thesis
    using assms(2) by (simp add: normalizeString_def foldl_norm_step_plain)
qed

lemma path_join_plain:
  assumes "p \<noteq> []" "segs \<noteq> []" "\<forall>s\<in>set segs. plain_segment s"
  shows "path_join (p # segs)
         = (if isAbsolute p then ''/'' else [])
           @ join_with ''/'' (normalizeString p (\<not> isAbsolute p) @ segs)"
proof -
  define q where "q = p @ ''/'' @ join_with ''/'' segs"
  have parts: "filter (\<lambda>a. a \<noteq> []) (p # segs) = p # segs"
    using assms by (auto simp: plain_segment_def filter_id_conv)
  have joined: "join_with ''/'' (p # segs) = q"
    using assms(2) by (simp add: q_def join_with_Cons)
  have abs: "isAbsolute q = isAbsolute p"
    using assms(1) by (cases p) (simp_all add: q_def isAbsolute_def)
  have trailing: "last q \<noteq> CHR ''/''"
    using join_plain_last [OF assms(2,3), of "''/''"] by (simp add: q_def)
  have segs_q: "normalizeString q b = normalizeString p b @ segs" for b
    unfolding q_def using assms(2,3) by (rule normalizeString_join)
  have "q \<noteq> []" using assms(1) by (simp add: q_def)
  then show ?thesis
    using assms(2) trailing
    by (simp add: path_join_def parts joined path_normalize_def Let_def abs segs_q
        del: filter.simps)
qed

text \<open>Joining plain segments to a path and resolving the result appends the segments
  to the resolved path.\<close>

lemma resolve_segments_join:
  assumes "segs \<noteq> []" "\<forall>s\<in>set segs. plain_segment s"
  shows "resolve_segments cwd (path_join (p # segs)) = resolve_segments cwd p @ segs"
proof (cases "p = []")
  case True
  have parts: "filter (\<lambda>a. a \<noteq> []) (p # segs) = segs"
    using assms True by (auto simp: plain_segment_def filter_id_conv)
  have sp: "split_on (CHR ''/'') (join_with ''/'' segs) = segs"
    using assms by (intro split_on_join) (auto simp: plain_segment_def)
  have rel: "\<not> isAbsolute (join_with ''/'' segs)"
    using assms by (intro join_plain_hd) (auto simp: plain_segment_def)
  note ends = join_plain_last [OF assms, of "''/''"]
  have norm: "normalizeString (join_with ''/'' segs) True = segs"
    using assms(2) by (simp add: normalizeString_def sp foldl_norm_step_plain)
  have joined: "path_join (p # segs) = join_with ''/'' segs"
    using assms(1) ends rel
    by (simp add: path_join_def parts path_normalize_def Let_def norm del: filter.simps)
  have "resolve_segments cwd (join_with ''/'' segs)
        = normalizeString (cwd @ ''/'' @ join_with ''/'' segs) False"
    using rel by (simp add: resolve_segments_def)
  also have "\<dots> = normalizeString cwd False @ segs"
    using assms by (rule normalizeString_join)
  also have "normalizeString cwd False = resolve_segments cwd p"
    using True
    by (simp add: resolve_segments_def isAbsolute_def normalizeString_def
        split_on_append_sep norm_step_def)
  finally show ?thesis by (simp add: joined)
next
  case False
  note pj = path_join_plain [OF False assms]
  show ?thesis
  proof (cases "isAbsolute p")
    case True
    define ns where "ns = normalizeString p False @ segs"
    have plain: "\<forall>s\<in>set ns. plain_segment s"
      using normalizeString_False_plain [of p] assms(2) by (auto simp: ns_def)
    have ne: "ns \<noteq> []" using assms(1) by (simp add: ns_def)
    have sp: "split_on (CHR ''/'') (join_with ''/'' ns) = ns"
      using ne plain by (intro split_on_join) (auto simp: plain_segment_def)
    have "path_join (p # segs) = ''/'' @ join_with ''/'' ns"
      using pj True by (simp add: ns_def)
    then have "resolve_segments cwd (path_join (p # segs))
        = normalizeString (''/'' @ join_with ''/'' ns) False"
      by (simp add: resolve_segments_def isAbsolute_def)
    also have "\<dots> = foldl (norm_step False) [] ([] # ns)"
      using sp by (simp add: normalizeString_def)
    also have "\<dots> = ns"
      using plain by (simp add: norm_step_def foldl_norm_step_plain)
    finally show ?thesis
      using True by (simp add: ns_def resolve_segments_def)
  next
    case rel: False
    define zs where "zs = normalizeString p True"
    define ns where "ns = zs @ segs"
    define st where "st = normalizeString cwd False"
    have ne: "ns \<noteq> []" using assms(1) by (simp add: ns_def)
    have seg_ok: "\<forall>s\<in>set ns. s \<noteq> [] \<and> CHR ''/'' \<notin> set s"
      using normalizeString_noslash [of p True] normalizeString_kept [of p True] assms(2)
      by (auto simp: ns_def zs_def plain_segment_def kept_segment_def)
    have sp: "split_on (CHR ''/'') (join_with ''/'' ns) = ns"
      using ne seg_ok by (intro split_on_join) auto
    have rel_ns: "\<not> isAbsolute (join_with ''/'' ns)"
      using ne seg_ok by (rule join_plain_hd)
    have "path_join (p # segs) = join_with ''/'' ns"
      using pj rel by (simp add: ns_def zs_def)
    then have "resolve_segments cwd (path_join (p # segs))
        = normalizeString (cwd @ ''/'' @ join_with ''/'' ns) False"
      using rel_ns by (simp add: resolve_segments_def)
    also have "\<dots> = foldl (norm_step False) st (zs @ segs)"
      using sp by (simp add: normalizeString_def split_on_append_sep st_def ns_def)
    also have "\<dots> = foldl (norm_step False) st zs @ segs"
      using assms(2) by (simp add: foldl_norm_step_plain)
    also have "foldl (norm_step False) st zs
        = foldl (norm_step False) st (split_on (CHR ''/'') p)"
      unfolding zs_def normalizeString_def by (rule resolve_after_normalize)
    also have "\<dots> = resolve_segments cwd p"
      using rel
      by (simp add: resolve_segments_def normalizeString_def split_on_append_sep st_def)
    finally show ?thesis .
  qed
qed



section \<open>Signature injection (sinfInjector.ts)\<close>



record Sinf =
  sinf_id :: int
  sinf :: string

text \<open>
  A parsed property list is an object; the injector reads two of its fields and tests
  one for being an array and the other for being a string. The elements of the array
  are strings, as the cast \<open>sinfPaths as string[]\<close> takes them to be.
\<close>

datatype plist_value = PString string | PArray "string list" | POther




































section \<open>Properties of the injector\<close>
























section \<open>The download manager: data (downloadManager.ts)\<close>

text \<open>
  Modelled from the spec: the declarations of \<open>Software\<close> and \<open>DownloadTask\<close>
  (\<open>types/index.ts\<close>) are not among the sources; the fields are those of the data model
  of the specification, which are the ones the manager reads and writes.
\<close>

datatype status = Pending | Downloading | Injecting | Paused | Completed | Failed

fun status_name :: "status \<Rightarrow> string" where
  "status_name Pending = ''pending''"
| "status_name Downloading = ''downloading''"
| "status_name Injecting = ''injecting''"
| "status_name Paused = ''paused''"
| "status_name Completed = ''completed''"
| "status_name Failed = ''failed''"

record Software =
  software_name :: string
  bundleID :: string
  version :: string

record DownloadTask =
  task_id :: string
  software :: Software
  accountHash :: string
  downloadURL :: string
  sinfs :: "Sinf list"
  iTunesMetadata :: "string option"
  status :: status
  progress :: int
  speed :: string
  error :: "string option"
  filePath :: "string option"
  createdAt :: string

text \<open>\<open>t.filePath\<close> in a condition: set and not the empty string.\<close>

definition truthy :: "string option \<Rightarrow> bool" where
  "truthy v = (v \<noteq> None \<and> v \<noteq> Some [])"

text \<open>
  The process: its working directory and the configuration it read from the
  environment, with the platform's URL parser.
\<close>

record runtime =
  dataDir :: string
  working_dir :: string
  autoCleanupDays :: int
  autoCleanupMaxMB :: int
  parseURL :: url_parser

definition PACKAGES_DIR :: "runtime \<Rightarrow> string" where
  "PACKAGES_DIR rt = path_join [dataDir rt, ''packages'']"

definition LEGACY_DOWNLOADS_FILE :: "runtime \<Rightarrow> string" where
  "LEGACY_DOWNLOADS_FILE rt = path_join [dataDir rt, ''downloads.json'']"

definition resolve :: "runtime \<Rightarrow> string \<Rightarrow> string" where
  "resolve rt p = path_resolve (working_dir rt) p"

text \<open>
  The file system is the set of regular files with their size and modification time,
  keyed by resolved path; directories are not tracked (creating and removing empty
  directories changes no file), and its calls are taken to succeed. The snapshot file
  \<open>tasks.json\<close> is kept apart, with what a reader finds in it.
\<close>

record fstat =
  st_size :: int
  st_mtimeMs :: int

type_synonym file_system = "string \<Rightarrow> fstat option"

definition existsSync :: "runtime \<Rightarrow> file_system \<Rightarrow> string \<Rightarrow> bool" where
  "existsSync rt fs p = (fs (resolve rt p) \<noteq> None)"

record snapshot_item =
  item_id :: string
  item_software :: Software
  item_accountHash :: string
  item_downloadURL :: string
  item_sinfs :: "Sinf list"
  item_status :: string
  item_progress :: int
  item_speed :: string
  item_filePath :: string
  item_createdAt :: string

text \<open>An element of the parsed array: \<open>null\<close>, on which reading a property throws;
  another value that is no object, of which every property is undefined; or an object,
  where an absent string property is read like the empty string.\<close>

datatype json_element = JNull | JPrimitive | JObject snapshot_item

datatype tasks_json = NoFile | Unparsable | NotAnArray | JArray "json_element list"

text \<open>
  A call of \<open>startDownload\<close>: the task object it holds, its controller, whether its
  timeout is armed, and where it stands.
\<close>

datatype run_phase = AwaitingDownload | AwaitingInject | RunReturned | RunRejected thrown

record run =
  run_task :: nat
  run_controller :: nat
  run_timeout_armed :: bool
  run_phase :: run_phase

text \<open>
  The module state. Task objects live in \<open>heap\<close> and are referred to by index, since the
  map, the calls of \<open>startDownload\<close> and the listeners share them; the four maps keep
  their insertion order. \<open>controller_aborted\<close> holds the flag of each \<open>AbortController\<close>
  made, \<open>downloader_objs\<close> the destination and the \<open>aborted\<close> flag of each
  \<open>ChunkedDownloader\<close>; \<open>sent\<close> is what the listeners were called with.
\<close>

record manager =
  heap :: "DownloadTask list"
  tasks :: "(string \<times> nat) list"
  abortControllers :: "(string \<times> nat) list"
  chunkDownloaders :: "(string \<times> nat) list"
  progressListeners :: "(string \<times> nat list) list"
  controller_aborted :: "bool list"
  downloader_objs :: "(string \<times> bool) list"
  files :: file_system
  tasks_file :: tasks_json
  runs :: "run list"
  sent :: "(nat \<times> DownloadTask) list"

definition update_task :: "nat \<Rightarrow> (DownloadTask \<Rightarrow> DownloadTask) \<Rightarrow> manager \<Rightarrow> manager" where
  "update_task ref f s = s\<lparr>heap := (heap s)[ref := f (heap s ! ref)]\<rparr>"

text \<open>\<open>Array.from(tasks.values())\<close>.\<close>

definition task_values :: "manager \<Rightarrow> DownloadTask list" where
  "task_values s = map (\<lambda>(k, ref). heap s ! ref) (tasks s)"

section \<open>The download manager: operations\<close>

definition notifyProgress :: "nat \<Rightarrow> manager \<Rightarrow> manager" where
  "notifyProgress ref s =
     (let task = heap s ! ref
      in case map_of (progressListeners s) (task_id task) of
           None \<Rightarrow> s
         | Some listeners \<Rightarrow> s\<lparr>sent := sent s @ map (\<lambda>l. (l, task)) listeners\<rparr>)"

definition addProgressListener :: "string \<Rightarrow> nat \<Rightarrow> manager \<Rightarrow> manager" where
  "addProgressListener taskId listener s =
     (let listeners = (case map_of (progressListeners s) taskId of
                         None \<Rightarrow> []
                       | Some ls \<Rightarrow> ls)
      in s\<lparr>progressListeners :=
             AList.update taskId
               (if listener \<in> set listeners then listeners else listeners @ [listener])
               (progressListeners s)\<rparr>)"

definition removeProgressListener :: "string \<Rightarrow> nat \<Rightarrow> manager \<Rightarrow> manager" where
  "removeProgressListener taskId listener s =
     (case map_of (progressListeners s) taskId of
        None \<Rightarrow> s
      | Some ls \<Rightarrow>
          (let remaining = filter (\<lambda>l. l \<noteq> listener) ls
           in if remaining = []
              then s\<lparr>progressListeners := AList.delete taskId (progressListeners s)\<rparr>
              else s\<lparr>progressListeners := AList.update taskId remaining (progressListeners s)\<rparr>))"

text \<open>The projection of a task in the snapshot.\<close>

definition snapshot_of :: "DownloadTask \<Rightarrow> snapshot_item" where
  "snapshot_of t =
     \<lparr>item_id = task_id t, item_software = software t, item_accountHash = accountHash t,
      item_downloadURL = [], item_sinfs = [], item_status = status_name (status t),
      item_progress = progress t, item_speed = speed t,
      item_filePath = (case filePath t of Some p \<Rightarrow> p | None \<Rightarrow> []),
      item_createdAt = createdAt t\<rparr>"

definition persistTasks :: "manager \<Rightarrow> manager" where
  "persistTasks s =
     (let completed = map snapshot_of
            (filter (\<lambda>t. status t = Completed \<and> truthy (filePath t)) (task_values s))
      in s\<lparr>tasks_file := JArray (map JObject completed)\<rparr>)"

text \<open>\<open>controller.abort()\<close> and the removal from the index, when a controller is
  registered under the id; the same for the downloader, whose \<open>abort()\<close> also removes the
  part files beside its destination.\<close>

definition abort_controller :: "string \<Rightarrow> manager \<Rightarrow> manager" where
  "abort_controller tid s =
     (case map_of (abortControllers s) tid of
        None \<Rightarrow> s
      | Some c \<Rightarrow> s\<lparr>controller_aborted := (controller_aborted s)[c := True],
                     abortControllers := AList.delete tid (abortControllers s)\<rparr>)"

definition is_part_file :: "string \<Rightarrow> string \<Rightarrow> bool" where
  "is_part_file dest p =
     (prefix (dest @ ''.part'') p \<and> CHR ''/'' \<notin> set (drop (length dest) p))"

definition abort_downloader :: "runtime \<Rightarrow> string \<Rightarrow> manager \<Rightarrow> manager" where
  "abort_downloader rt tid s =
     (case map_of (chunkDownloaders s) tid of
        None \<Rightarrow> s
      | Some d \<Rightarrow>
          (let destPath = fst (downloader_objs s ! d)
           in s\<lparr>downloader_objs := (downloader_objs s)[d := (destPath, True)],
                 files := (\<lambda>p. if is_part_file (resolve rt destPath) p then None
                                else files s p),
                 chunkDownloaders := AList.delete tid (chunkDownloaders s)\<rparr>))"

definition deleteTask :: "runtime \<Rightarrow> string \<Rightarrow> manager \<Rightarrow> bool \<times> manager" where
  "deleteTask rt tid s =
     (case map_of (tasks s) tid of
        None \<Rightarrow> (False, s)
      | Some ref \<Rightarrow>
          (let task = heap s ! ref;
               s1 = abort_downloader rt tid (abort_controller tid s);
               s2 = (if truthy (filePath task)
                     then (let resolved = resolve rt (the (filePath task));
                               packagesBase = resolve rt (PACKAGES_DIR rt)
                           in if prefix (packagesBase @ path_sep) resolved
                                 \<and> files s1 resolved \<noteq> None
                              then s1\<lparr>files := (files s1)(resolved := None)\<rparr>
                              else s1)
                     else s1);
               s3 = s2\<lparr>tasks := AList.delete tid (tasks s2),
                       progressListeners := AList.delete tid (progressListeners s2)\<rparr>
           in (True, persistTasks s3)))"

definition pauseTask :: "runtime \<Rightarrow> string \<Rightarrow> manager \<Rightarrow> bool \<times> manager" where
  "pauseTask rt tid s =
     (case map_of (tasks s) tid of
        None \<Rightarrow> (False, s)
      | Some ref \<Rightarrow>
          if status (heap s ! ref) \<noteq> Downloading then (False, s)
          else (let s1 = abort_downloader rt tid (abort_controller tid s);
                    s2 = update_task ref (\<lambda>t. t\<lparr>status := Paused\<rparr>) s1
                in (True, notifyProgress ref s2)))"


text \<open>The completed tasks whose file is on disk, as both cleanups select them.\<close>

definition completed_on_disk :: "runtime \<Rightarrow> manager \<Rightarrow> DownloadTask list" where
  "completed_on_disk rt s =
     filter (\<lambda>t. status t = Completed \<and> truthy (filePath t)
                 \<and> existsSync rt (files s) (the (filePath t)))
       (task_values s)"

definition stat_of :: "runtime \<Rightarrow> manager \<Rightarrow> DownloadTask \<Rightarrow> fstat" where
  "stat_of rt s t = the (files s (resolve rt (the (filePath t))))"

definition runTimeCleanup :: "runtime \<Rightarrow> int \<Rightarrow> manager \<Rightarrow> manager" where
  "runTimeCleanup rt now s =
     (if autoCleanupDays rt \<le> 0 then s
      else (let cutoff = now - autoCleanupDays rt * 24 * 60 * 60 * 1000;
                expiredIds = map task_id
                  (filter (\<lambda>t. st_mtimeMs (stat_of rt s t) < cutoff) (completed_on_disk rt s))
            in fold (\<lambda>tid s'. snd (deleteTask rt tid s')) expiredIds s))"

text \<open>The eviction loop: delete, subtract the size, stop once within the limit.\<close>

fun evict :: "runtime \<Rightarrow> int \<Rightarrow> int \<Rightarrow> (string \<times> fstat) list \<Rightarrow> manager \<Rightarrow> manager" where
  "evict rt maxBytes totalBytes [] s = s"
| "evict rt maxBytes totalBytes ((tid, st) # rest) s =
     (let s' = snd (deleteTask rt tid s);
          totalBytes' = totalBytes - st_size st
      in if totalBytes' \<le> maxBytes then s'
         else evict rt maxBytes totalBytes' rest s')"

definition runSpaceCleanup :: "runtime \<Rightarrow> manager \<Rightarrow> manager" where
  "runSpaceCleanup rt s =
     (if autoCleanupMaxMB rt \<le> 0 then s
      else (let maxBytes = autoCleanupMaxMB rt * 1024 * 1024;
                fileTasks = map (\<lambda>t. (task_id t, stat_of rt s t)) (completed_on_disk rt s);
                totalBytes = sum_list (map (\<lambda>(tid, st). st_size st) fileTasks)
            in if totalBytes \<le> maxBytes then s
               else evict rt maxBytes totalBytes
                      (sort_key (\<lambda>(tid, st). st_mtimeMs st) fileTasks) s))"

text \<open>The \<open>catch\<close> block of \<open>startDownload\<close> (the timeout of the call is disarmed by
  the caller of this function, in the record of the call).\<close>

definition startDownload_catch :: "nat \<Rightarrow> thrown \<Rightarrow> manager \<Rightarrow> manager" where
  "startDownload_catch ref err s =
     (let tid = task_id (heap s ! ref);
          s1 = s\<lparr>chunkDownloaders := AList.delete tid (chunkDownloaders s),
                 abortControllers := AList.delete tid (abortControllers s)\<rparr>
      in if instanceof_Error err \<and> err_name err = ''AbortError''
         then (if status (heap s1 ! ref) = Paused then s1
               else notifyProgress ref
                      (update_task ref
                         (\<lambda>t. t\<lparr>status := Failed, error := Some ''Download timed out''\<rparr>) s1))
         else notifyProgress ref
                (update_task ref
                   (\<lambda>t. t\<lparr>status := Failed, error := Some ''Download failed''\<rparr>) s1))"

text \<open>The end of the \<open>try\<close> block: completed, secrets stripped, snapshot written.\<close>

definition startDownload_complete :: "nat \<Rightarrow> manager \<Rightarrow> manager" where
  "startDownload_complete ref s =
     notifyProgress ref
       (persistTasks
          (update_task ref
             (\<lambda>t. t\<lparr>status := Completed, progress := 100, downloadURL := [],
                      sinfs := [], iTunesMetadata := None\<rparr>) s))"

definition add_run :: "nat \<Rightarrow> nat \<Rightarrow> bool \<Rightarrow> run_phase \<Rightarrow> manager \<Rightarrow> manager" where
  "add_run ref c armed ph s =
     s\<lparr>runs := runs s @ [\<lparr>run_task = ref, run_controller = c,
                            run_timeout_armed = armed, run_phase = ph\<rparr>]\<rparr>"

text \<open>
  \<open>startDownload\<close> from the point where the destination directory, its resolved path
  and the resolved packages base are computed, up to the \<open>await\<close> of the download.
\<close>

definition startDownload_in_dir ::
    "runtime \<Rightarrow> nat \<Rightarrow> nat \<Rightarrow> string \<Rightarrow> string \<Rightarrow> string \<Rightarrow> manager \<Rightarrow> manager" where
  "startDownload_in_dir rt ref c dir resolvedDir packagesBase s =
     (if \<not> prefix (packagesBase @ path_sep) resolvedDir
      then add_run ref c False RunReturned
             (notifyProgress ref
                (update_task ref (\<lambda>t. t\<lparr>status := Failed, error := Some ''Invalid path''\<rparr>) s))
      else (let task = heap s ! ref;
                new_path = path_join [dir, task_id task @ ''.ipa''];
                s1 = update_task ref (\<lambda>t. t\<lparr>filePath := Some new_path\<rparr>) s
            in case validateDownloadURL (parseURL rt) (downloadURL task) of
                 Inl e \<Rightarrow> add_run ref c False RunReturned (startDownload_catch ref e s1)
               | Inr ok \<Rightarrow>
                   add_run ref c True AwaitingDownload
                     (s1\<lparr>downloader_objs := downloader_objs s1 @ [(new_path, False)],
                         chunkDownloaders :=
                           AList.update (task_id task) (length (downloader_objs s1))
                             (chunkDownloaders s1)\<rparr>)))"

text \<open>\<open>startDownload\<close> up to its first \<open>await\<close>; \<open>now\<close> is the clock read by the
  cleanup. A sanitizer that throws rejects the call where it stands.\<close>

definition startDownload :: "runtime \<Rightarrow> int \<Rightarrow> nat \<Rightarrow> manager \<Rightarrow> manager" where
  "startDownload rt now ref s0 =
     (let s1 = runSpaceCleanup rt (runTimeCleanup rt now s0);
          tid = task_id (heap s1 ! ref);
          c = length (controller_aborted s1);
          s2 = s1\<lparr>controller_aborted := controller_aborted s1 @ [False],
                 abortControllers := AList.update tid c (abortControllers s1)\<rparr>;
          s3 = notifyProgress ref
                 (update_task ref
                    (\<lambda>t. t\<lparr>status := Downloading, progress := 0, speed := ''0 B/s'',
                             error := None\<rparr>) s2);
          task = heap s3 ! ref
      in case safePathSegment (accountHash task) ''accountHash'' of
           Inl e \<Rightarrow> add_run ref c True (RunRejected e) s3
         | Inr safeAccountHash \<Rightarrow>
             (case safePathSegment (bundleID (software task)) ''bundleID'' of
                Inl e \<Rightarrow> add_run ref c True (RunRejected e) s3
              | Inr safeBundleID \<Rightarrow>
                  (case safePathSegment (version (software task)) ''version'' of
                     Inl e \<Rightarrow> add_run ref c True (RunRejected e) s3
                   | Inr safeVersion \<Rightarrow>
                       (let dir = path_join
                               [PACKAGES_DIR rt, safeAccountHash, safeBundleID, safeVersion]
                        in startDownload_in_dir rt ref c dir (resolve rt dir)
                             (resolve rt (PACKAGES_DIR rt)) s3))))"

definition resumeTask :: "runtime \<Rightarrow> int \<Rightarrow> string \<Rightarrow> manager \<Rightarrow> bool \<times> manager" where
  "resumeTask rt now tid s =
     (case map_of (tasks s) tid of
        None \<Rightarrow> (False, s)
      | Some ref \<Rightarrow>
          if status (heap s ! ref) \<noteq> Paused then (False, s)
          else (True, startDownload rt now ref s))"

text \<open>\<open>createTask\<close>; \<open>uuid\<close> is what \<open>uuidv4()\<close> returns and \<open>created\<close> the time stamp.
  The task it returns is the object, given by its reference.\<close>

definition createTask ::
    "runtime \<Rightarrow> int \<Rightarrow> string \<Rightarrow> string \<Rightarrow> Software \<Rightarrow> string \<Rightarrow> string \<Rightarrow> Sinf list
       \<Rightarrow> string option \<Rightarrow> manager \<Rightarrow> (thrown + nat) \<times> manager" where
  "createTask rt now uuid created sw acct url sfs metadata s =
     (case validateDownloadURL (parseURL rt) url of
        Inl e \<Rightarrow> (Inl e, s)
      | Inr ok \<Rightarrow>
          (case safePathSegment acct ''accountHash'' of
             Inl e \<Rightarrow> (Inl e, s)
           | Inr a \<Rightarrow>
               (case safePathSegment (bundleID sw) ''bundleID'' of
                  Inl e \<Rightarrow> (Inl e, s)
                | Inr b \<Rightarrow>
                    (case safePathSegment (version sw) ''version'' of
                       Inl e \<Rightarrow> (Inl e, s)
                     | Inr v \<Rightarrow>
                         (let task = \<lparr>task_id = uuid, software = sw, accountHash = acct,
                                      downloadURL = url, sinfs = sfs,
                                      iTunesMetadata = metadata, status = Pending,
                                      progress = 0, speed = ''0 B/s'', error = None,
                                      filePath = None, createdAt = created\<rparr>;
                              ref = length (heap s);
                              s1 = s\<lparr>heap := heap s @ [task],
                                     tasks := AList.update uuid ref (tasks s)\<rparr>
                          in (Inr ref, startDownload rt now ref s1))))))"


text \<open>The settling of the awaited download and of the awaited injection, for the call
  \<open>r\<close>; a call that does not stand there is not affected.\<close>

definition set_run :: "nat \<Rightarrow> bool \<Rightarrow> run_phase \<Rightarrow> manager \<Rightarrow> manager" where
  "set_run r armed ph s =
     s\<lparr>runs := (runs s)[r := (runs s ! r)\<lparr>run_timeout_armed := armed, run_phase := ph\<rparr>]\<rparr>"

definition run_destination :: "runtime \<Rightarrow> manager \<Rightarrow> nat \<Rightarrow> string" where
  "run_destination rt s r =
     resolve rt (case filePath (heap s ! run_task (runs s ! r)) of
                   Some p \<Rightarrow> p
                 | None \<Rightarrow> [])"

definition awaiting :: "run_phase \<Rightarrow> nat \<Rightarrow> manager \<Rightarrow> bool" where
  "awaiting ph r s = (r < length (runs s) \<and> run_phase (runs s ! r) = ph)"

definition download_resolved :: "runtime \<Rightarrow> nat \<Rightarrow> fstat \<Rightarrow> manager \<Rightarrow> manager" where
  "download_resolved rt r written s =
     (if \<not> awaiting AwaitingDownload r s then s
      else (let ref = run_task (runs s ! r);
                tid = task_id (heap s ! ref);
                s1 = s\<lparr>files := (files s)(run_destination rt s r := Some written),
                       chunkDownloaders := AList.delete tid (chunkDownloaders s),
                       abortControllers := AList.delete tid (abortControllers s)\<rparr>
            in if length (sinfs (heap s1 ! ref)) > 0
               then set_run r False AwaitingInject
                      (notifyProgress ref
                         (update_task ref (\<lambda>t. t\<lparr>status := Injecting, progress := 100\<rparr>) s1))
               else set_run r False RunReturned (startDownload_complete ref s1)))"

definition download_rejected ::
    "runtime \<Rightarrow> nat \<Rightarrow> thrown \<Rightarrow> fstat option \<Rightarrow> manager \<Rightarrow> manager" where
  "download_rejected rt r err left s =
     (if \<not> awaiting AwaitingDownload r s then s
      else (let ref = run_task (runs s ! r);
                s1 = s\<lparr>files := (files s)(run_destination rt s r := left)\<rparr>
            in set_run r False RunReturned (startDownload_catch ref err s1)))"

definition inject_resolved :: "runtime \<Rightarrow> nat \<Rightarrow> fstat \<Rightarrow> manager \<Rightarrow> manager" where
  "inject_resolved rt r written s =
     (if \<not> awaiting AwaitingInject r s then s
      else (let ref = run_task (runs s ! r);
                s1 = s\<lparr>files := (files s)(run_destination rt s r := Some written)\<rparr>
            in set_run r False RunReturned (startDownload_complete ref s1)))"

definition inject_rejected :: "nat \<Rightarrow> thrown \<Rightarrow> manager \<Rightarrow> manager" where
  "inject_rejected r err s =
     (if \<not> awaiting AwaitingInject r s then s
      else set_run r False RunReturned (startDownload_catch (run_task (runs s ! r)) err s))"

text \<open>The \<open>onProgress\<close> callback of the call \<open>r\<close>, while its download runs. The percentage
  is \<open>Math.round((downloaded / total) * 100)\<close>, taken on exact numbers: the code
  rounds the product of two doubles, which for some inputs is one less (29 of 200
  bytes give 14 there and 15 here). Nothing below depends on the value.\<close>

definition round_percent :: "int \<Rightarrow> int \<Rightarrow> int" where
  "round_percent downloaded total_bytes = (200 * downloaded + total_bytes) div (2 * total_bytes)"

definition onProgress :: "nat \<Rightarrow> string \<Rightarrow> int \<Rightarrow> int \<Rightarrow> manager \<Rightarrow> manager" where
  "onProgress r spd downloaded total_bytes s =
     (if \<not> awaiting AwaitingDownload r s then s
      else (let ref = run_task (runs s ! r);
                s1 = update_task ref (\<lambda>t. t\<lparr>speed := spd\<rparr>) s;
                s2 = (if total_bytes > 0
                      then update_task ref
                             (\<lambda>t. t\<lparr>progress := round_percent downloaded total_bytes\<rparr>) s1
                      else s1)
            in notifyProgress ref s2))"

text \<open>The global timeout of the call \<open>r\<close> fires: its controller is aborted.\<close>

definition timeout_fires :: "nat \<Rightarrow> manager \<Rightarrow> manager" where
  "timeout_fires r s =
     (if r < length (runs s) \<and> run_timeout_armed (runs s ! r)
      then s\<lparr>controller_aborted := (controller_aborted s)[run_controller (runs s ! r) := True],
             runs := (runs s)[r := (runs s ! r)\<lparr>run_timeout_armed := False\<rparr>]\<rparr>
      else s)"

section \<open>The download manager: start-up\<close>

text \<open>The loop over the parsed array. Reading \<open>item.id\<close> of \<open>null\<close> throws; the \<open>catch\<close>
  around the loop ends it there and keeps what was restored before.\<close>

fun restore_items :: "runtime \<Rightarrow> json_element list \<Rightarrow> manager \<Rightarrow> manager" where
  "restore_items rt [] s = s"
| "restore_items rt (JNull # rest) s = s"
| "restore_items rt (JPrimitive # rest) s = restore_items rt rest s"
| "restore_items rt (JObject item # rest) s =
     (if item_id item \<noteq> [] \<and> item_status item = ''completed'' \<and> item_filePath item \<noteq> []
         \<and> existsSync rt (files s) (item_filePath item)
      then restore_items rt rest
             (s\<lparr>heap := heap s @
                    [\<lparr>task_id = item_id item, software = item_software item,
                      accountHash = item_accountHash item, downloadURL = [], sinfs = [],
                      iTunesMetadata = None, status = Completed, progress = 100,
                      speed = ''0 B/s'', error = None,
                      filePath = Some (item_filePath item),
                      createdAt = item_createdAt item\<rparr>],
                 tasks := AList.update (item_id item) (length (heap s)) (tasks s)\<rparr>)
      else restore_items rt rest s)"

text \<open>Every regular file beneath the packages base that is no task's file is removed.\<close>

definition cleanOrphanedPackages :: "runtime \<Rightarrow> manager \<Rightarrow> manager" where
  "cleanOrphanedPackages rt s =
     (let knownPaths = set (map (\<lambda>t. resolve rt (the (filePath t)))
                              (filter (\<lambda>t. truthy (filePath t)) (task_values s)));
          packagesBase = resolve rt (PACKAGES_DIR rt)
      in s\<lparr>files := (\<lambda>p. if prefix (packagesBase @ ''/'') p \<and> p \<notin> knownPaths then None
                           else files s p)\<rparr>)"

definition initOnStartup :: "runtime \<Rightarrow> int \<Rightarrow> file_system \<Rightarrow> tasks_json \<Rightarrow> manager" where
  "initOnStartup rt now disk snapshot =
     (let s0 = \<lparr>heap = [], tasks = [], abortControllers = [], chunkDownloaders = [],
                progressListeners = [], controller_aborted = [], downloader_objs = [],
                files = disk(resolve rt (LEGACY_DOWNLOADS_FILE rt) := None),
                tasks_file = snapshot, runs = [], sent = []\<rparr>;
          s1 = (case snapshot of
                  JArray items \<Rightarrow> restore_items rt items s0
                | _ \<Rightarrow> s0)
      in runTimeCleanup rt now (cleanOrphanedPackages rt s1))"

section \<open>The download manager: what can happen\<close>

text \<open>
  The calls of the exported functions, the settling of what a call of \<open>startDownload\<close>
  awaits, the timers, and a file disappearing from the disk behind the back of the
  service. Each runs to completion before the next: the state between two events is
  what any other code can observe. \<open>uuidv4()\<close> returns 36 characters, lower-case
  hexadecimal digits and hyphens; a creation with another id does not happen.
\<close>

datatype event =
    CreateTask int string string Software string string "Sinf list" "string option"
  | PauseTask string
  | ResumeTask int string
  | DeleteTask string
  | AddProgressListener string nat
  | RemoveProgressListener string nat
  | Progress nat string int int
  | DownloadResolved nat fstat
  | DownloadRejected nat thrown "fstat option"
  | InjectResolved nat fstat
  | InjectRejected nat thrown
  | TimeoutFires nat
  | MidnightTick int
  | FileVanishes string

definition is_uuid :: "string \<Rightarrow> bool" where
  "is_uuid u = (length u = 36 \<and> list_all (\<lambda>c. c \<in> set ''0123456789abcdef-'') u)"

fun exec :: "runtime \<Rightarrow> event \<Rightarrow> manager \<Rightarrow> manager" where
  "exec rt (CreateTask now uuid created sw acct url sfs metadata) s =
     (if is_uuid uuid then snd (createTask rt now uuid created sw acct url sfs metadata s) else s)"
| "exec rt (PauseTask tid) s = snd (pauseTask rt tid s)"
| "exec rt (ResumeTask now tid) s = snd (resumeTask rt now tid s)"
| "exec rt (DeleteTask tid) s = snd (deleteTask rt tid s)"
| "exec rt (AddProgressListener tid l) s = addProgressListener tid l s"
| "exec rt (RemoveProgressListener tid l) s = removeProgressListener tid l s"
| "exec rt (Progress r spd downloaded total_bytes) s = onProgress r spd downloaded total_bytes s"
| "exec rt (DownloadResolved r written) s = download_resolved rt r written s"
| "exec rt (DownloadRejected r err left) s = download_rejected rt r err left s"
| "exec rt (InjectResolved r written) s = inject_resolved rt r written s"
| "exec rt (InjectRejected r err) s = inject_rejected r err s"
| "exec rt (TimeoutFires r) s = timeout_fires r s"
| "exec rt (MidnightTick now) s = runTimeCleanup rt now s"
| "exec rt (FileVanishes p) s = s\<lparr>files := (files s)(p := None)\<rparr>"

text \<open>A run of the service: start-up, then the events in order.\<close>

definition run_events :: "runtime \<Rightarrow> event list \<Rightarrow> manager \<Rightarrow> manager" where
  "run_events rt evs s = fold (exec rt) evs s"

section \<open>States for evaluating the manager\<close>

definition sample_runtime :: runtime where
  "sample_runtime = \<lparr>dataDir = ''/data'', working_dir = ''/app'', autoCleanupDays = 0,
     autoCleanupMaxMB = 0, parseURL = sample_parseURL\<rparr>"

definition sample_create :: event where
  "sample_create =
     CreateTask 1000 ''01234567-89ab-4cde-8f01-23456789abcd'' ''2024-01-01T00:00:00.000Z''
       \<lparr>software_name = ''App'', bundleID = ''com.example.app'', version = ''1.0''\<rparr>
       ''acct hash'' ''https://iosapps.itunes.apple.com/itunes-assets/app.ipa''
       [\<lparr>sinf_id = 0, sinf = ''AAAA''\<rparr>] None"

text \<open>A fresh service on an empty disk, and the same after one creation: the task is
  downloading.\<close>

definition s_fresh :: manager where
  "s_fresh = initOnStartup sample_runtime 0 (\<lambda>p. None) NoFile"

definition s_downloading :: manager where
  "s_downloading = exec sample_runtime sample_create s_fresh"

lemma s_downloading_task:
  "map_of (tasks s_downloading) ''01234567-89ab-4cde-8f01-23456789abcd'' = Some 0
   \<and> status (heap s_downloading ! 0) = Downloading"
  by code_simp

section \<open>Lifecycle operations whose precondition fails\<close>

text \<open>
  Claim C10. \<open>pauseTask(id)\<close> returns false and leaves the whole state (tasks, indices,
  files) as it was unless a task with that id exists with status downloading, and then
  it returns true; \<open>resumeTask(id)\<close> likewise for status paused; \<open>deleteTask(id)\<close>
  returns false and leaves the state as it was when no task has that id, and returns
  true otherwise.
\<close>

theorem lifecycle_precondition_noop:
  "(\<not> (\<exists>ref. map_of (tasks s) tid = Some ref \<and> status (heap s ! ref) = Downloading)
      \<longrightarrow> pauseTask rt tid s = (False, s))
   \<and> ((\<exists>ref. map_of (tasks s) tid = Some ref \<and> status (heap s ! ref) = Downloading)
      \<longrightarrow> fst (pauseTask rt tid s))
   \<and> (\<not> (\<exists>ref. map_of (tasks s) tid = Some ref \<and> status (heap s ! ref) = Paused)
      \<longrightarrow> resumeTask rt now tid s = (False, s))
   \<and> ((\<exists>ref. map_of (tasks s) tid = Some ref \<and> status (heap s ! ref) = Paused)
      \<longrightarrow> fst (resumeTask rt now tid s))
   \<and> (map_of (tasks s) tid = None \<longrightarrow> deleteTask rt tid s = (False, s))
   \<and> (map_of (tasks s) tid \<noteq> None \<longrightarrow> fst (deleteTask rt tid s))"
proof -
  have pause_no: "\<not> (\<exists>ref. map_of (tasks s) tid = Some ref
        \<and> status (heap s ! ref) = Downloading)
      \<longrightarrow> pauseTask rt tid s = (False, s)"
    by (cases "map_of (tasks s) tid") (simp_all add: pauseTask_def)
  have pause_yes: "(\<exists>ref. map_of (tasks s) tid = Some ref
        \<and> status (heap s ! ref) = Downloading)
      \<longrightarrow> fst (pauseTask rt tid s)"
    by (auto simp: pauseTask_def Let_def)
  have resume_no: "\<not> (\<exists>ref. map_of (tasks s) tid = Some ref
        \<and> status (heap s ! ref) = Paused)
      \<longrightarrow> resumeTask rt now tid s = (False, s)"
    by (cases "map_of (tasks s) tid") (simp_all add: resumeTask_def)
  have resume_yes: "(\<exists>ref. map_of (tasks s) tid = Some ref
        \<and> status (heap s ! ref) = Paused)
      \<longrightarrow> fst (resumeTask rt now tid s)"
    by (auto simp: resumeTask_def)
  have delete_no: "map_of (tasks s) tid = None \<longrightarrow> deleteTask rt tid s = (False, s)"
    by (simp add: deleteTask_def)
  have delete_yes: "map_of (tasks s) tid \<noteq> None \<longrightarrow> fst (deleteTask rt tid s)"
    by (auto simp: deleteTask_def Let_def)
  from pause_no pause_yes resume_no resume_yes delete_no delete_yes show ?thesis
    by (intro conjI)
qed

theorem lifecycle_precondition_noop_witness:
  "pauseTask sample_runtime ''no-such-task'' s_downloading = (False, s_downloading)
   \<and> fst (pauseTask sample_runtime ''01234567-89ab-4cde-8f01-23456789abcd'' s_downloading)
   \<and> resumeTask sample_runtime 2000 ''01234567-89ab-4cde-8f01-23456789abcd'' s_downloading
       = (False, s_downloading)
   \<and> fst (resumeTask sample_runtime 2000 ''01234567-89ab-4cde-8f01-23456789abcd''
            (snd (pauseTask sample_runtime ''01234567-89ab-4cde-8f01-23456789abcd''
                    s_downloading)))
   \<and> deleteTask sample_runtime ''no-such-task'' s_downloading = (False, s_downloading)
   \<and> fst (deleteTask sample_runtime ''01234567-89ab-4cde-8f01-23456789abcd'' s_downloading)"
proof -
  note T = lifecycle_precondition_noop [where rt = sample_runtime]
  have known: "map_of (tasks s_downloading) ''01234567-89ab-4cde-8f01-23456789abcd'' = Some 0"
    and dl: "status (heap s_downloading ! 0) = Downloading"
    using s_downloading_task by simp_all
  have unknown: "map_of (tasks s_downloading) ''no-such-task'' = None"
    by code_simp
  have paused: "map_of (tasks (snd (pauseTask sample_runtime
            ''01234567-89ab-4cde-8f01-23456789abcd'' s_downloading)))
          ''01234567-89ab-4cde-8f01-23456789abcd'' = Some 0
      \<and> status (heap (snd (pauseTask sample_runtime
            ''01234567-89ab-4cde-8f01-23456789abcd'' s_downloading)) ! 0) = Paused"
    by code_simp
  have a: "pauseTask sample_runtime ''no-such-task'' s_downloading = (False, s_downloading)"
    by (rule T [THEN conjunct1, THEN mp]) (simp add: unknown)
  have b: "fst (pauseTask sample_runtime ''01234567-89ab-4cde-8f01-23456789abcd''
                  s_downloading)"
    by (rule T [THEN conjunct2, THEN conjunct1, THEN mp]) (simp add: known dl)
  have c: "resumeTask sample_runtime 2000 ''01234567-89ab-4cde-8f01-23456789abcd''
        s_downloading = (False, s_downloading)"
    by (rule T [THEN conjunct2, THEN conjunct2, THEN conjunct1, THEN mp])
       (simp add: known dl)
  have d: "fst (resumeTask sample_runtime 2000 ''01234567-89ab-4cde-8f01-23456789abcd''
            (snd (pauseTask sample_runtime ''01234567-89ab-4cde-8f01-23456789abcd''
                    s_downloading)))"
    by (rule T [THEN conjunct2, THEN conjunct2, THEN conjunct2, THEN conjunct1, THEN mp])
       (use paused in blast)
  have e: "deleteTask sample_runtime ''no-such-task'' s_downloading = (False, s_downloading)"
    by (rule T [THEN conjunct2, THEN conjunct2, THEN conjunct2, THEN conjunct2,
          THEN conjunct1, THEN mp]) (rule unknown)
  have f: "fst (deleteTask sample_runtime ''01234567-89ab-4cde-8f01-23456789abcd''
                  s_downloading)"
    by (rule T [THEN conjunct2, THEN conjunct2, THEN conjunct2, THEN conjunct2,
          THEN conjunct2, THEN mp]) (simp add: known)
  from a b c d e f show ?thesis by (intro conjI)
qed



section \<open>What each operation does to the task objects\<close>

lemma heap_notifyProgress [simp]: "heap (notifyProgress ref s) = heap s"
  by (simp add: notifyProgress_def Let_def split: option.splits)

lemma heap_update_task [simp]:
  "heap (update_task ref f s) = (heap s)[ref := f (heap s ! ref)]"
  by (simp add: update_task_def)

lemma heap_persistTasks [simp]: "heap (persistTasks s) = heap s"
  by (simp add: persistTasks_def Let_def)

lemma heap_abort_controller [simp]: "heap (abort_controller tid s) = heap s"
  by (simp add: abort_controller_def split: option.splits)

lemma heap_abort_downloader [simp]: "heap (abort_downloader rt tid s) = heap s"
  by (simp add: abort_downloader_def Let_def split: option.splits)

lemma heap_add_run [simp]: "heap (add_run ref c armed ph s) = heap s"
  by (simp add: add_run_def)

lemma heap_set_run [simp]: "heap (set_run r armed ph s) = heap s"
  by (simp add: set_run_def)

lemma runs_notifyProgress [simp]: "runs (notifyProgress ref s) = runs s"
  by (simp add: notifyProgress_def Let_def split: option.splits)

lemma runs_update_task [simp]: "runs (update_task ref f s) = runs s"
  by (simp add: update_task_def)

lemma runs_persistTasks [simp]: "runs (persistTasks s) = runs s"
  by (simp add: persistTasks_def Let_def)

lemma runs_set_run [simp]:
  "runs (set_run r armed ph s)
     = (runs s)[r := (runs s ! r)\<lparr>run_timeout_armed := armed, run_phase := ph\<rparr>]"
  by (simp add: set_run_def)

lemma heap_startDownload_catch:
  "heap (startDownload_catch ref err s) =
     (if instanceof_Error err \<and> err_name err = ''AbortError''
      then (if status (heap s ! ref) = Paused then heap s
            else (heap s)[ref := (heap s ! ref)
                     \<lparr>status := Failed, error := Some ''Download timed out''\<rparr>])
      else (heap s)[ref := (heap s ! ref)
               \<lparr>status := Failed, error := Some ''Download failed''\<rparr>])"
  by (simp add: startDownload_catch_def Let_def)

lemma runs_startDownload_catch [simp]: "runs (startDownload_catch ref err s) = runs s"
  by (simp add: startDownload_catch_def Let_def)

lemma heap_pauseTask:
  "pauseTask rt tid s0 = (True, s) \<Longrightarrow> map_of (tasks s0) tid = Some ref \<Longrightarrow>
     heap s = (heap s0)[ref := (heap s0 ! ref)\<lparr>status := Paused\<rparr>]"
  by (auto simp: pauseTask_def Let_def split: if_splits)

section \<open>The failure of the awaited download\<close>

text \<open>The sample task paused while its download runs, and the error of an aborted
  fetch.\<close>

definition s_paused :: manager where
  "s_paused = snd (pauseTask sample_runtime ''01234567-89ab-4cde-8f01-23456789abcd''
                     s_downloading)"

definition abort_error :: thrown where
  "abort_error = ErrorObj ''AbortError'' ''This operation was aborted''"

text \<open>
  The catch block, case by case, with the test for an abort as the code makes it. Let
  the call \<open>r\<close> of \<open>startDownload\<close> await its download, for the task object
  \<open>ref\<close>, and let the download reject with \<open>err\<close>. If \<open>err\<close> is an \<open>Error\<close> named
  \<open>AbortError\<close> and the status is paused (which only \<open>pauseTask\<close> sets, as the last
  part says), the call returns and the task object is exactly as before: no status
  change, no error set. If \<open>err\<close> is such an abort and the status is not paused, the
  task is failed with the error \<open>Download timed out\<close>. For every other \<open>err\<close> the task is
  failed with the error \<open>Download failed\<close>.
\<close>

lemma download_failure_handling:
  assumes "awaiting AwaitingDownload r s"
    and "ref = run_task (runs s ! r)"
    and "ref < length (heap s)"
  shows "(instanceof_Error err \<and> err_name err = ''AbortError''
            \<and> status (heap s ! ref) = Paused
          \<longrightarrow> heap (download_rejected rt r err left s) = heap s
              \<and> run_phase (runs (download_rejected rt r err left s) ! r) = RunReturned)
         \<and> (instanceof_Error err \<and> err_name err = ''AbortError''
            \<and> status (heap s ! ref) \<noteq> Paused
          \<longrightarrow> status (heap (download_rejected rt r err left s) ! ref) = Failed
              \<and> error (heap (download_rejected rt r err left s) ! ref)
                  = Some ''Download timed out'')
         \<and> (\<not> (instanceof_Error err \<and> err_name err = ''AbortError'')
          \<longrightarrow> status (heap (download_rejected rt r err left s) ! ref) = Failed
              \<and> error (heap (download_rejected rt r err left s) ! ref)
                  = Some ''Download failed'')
         \<and> (\<forall>tid s0. pauseTask rt tid s0 = (True, s) \<and> map_of (tasks s0) tid = Some ref
          \<longrightarrow> status (heap s ! ref) = Paused)"
proof -
  have await: "r < length (runs s)" "run_phase (runs s ! r) = AwaitingDownload"
    using assms(1) by (simp_all add: awaiting_def)
  have heap': "heap (download_rejected rt r err left s)
      = heap (startDownload_catch ref err
                (s\<lparr>files := (files s)(run_destination rt s r := left)\<rparr>))"
    using assms(1,2) by (simp add: download_rejected_def Let_def)
  have phase': "run_phase (runs (download_rejected rt r err left s) ! r) = RunReturned"
    using assms(1) await by (simp add: download_rejected_def Let_def)
  have paused: "instanceof_Error err \<and> err_name err = ''AbortError''
            \<and> status (heap s ! ref) = Paused
          \<longrightarrow> heap (download_rejected rt r err left s) = heap s
              \<and> run_phase (runs (download_rejected rt r err left s) ! r) = RunReturned"
    using phase' by (simp add: heap' heap_startDownload_catch)
  have timed_out: "instanceof_Error err \<and> err_name err = ''AbortError''
            \<and> status (heap s ! ref) \<noteq> Paused
          \<longrightarrow> status (heap (download_rejected rt r err left s) ! ref) = Failed
              \<and> error (heap (download_rejected rt r err left s) ! ref)
                  = Some ''Download timed out''"
    using assms(3) by (simp add: heap' heap_startDownload_catch)
  have other: "\<not> (instanceof_Error err \<and> err_name err = ''AbortError'')
          \<longrightarrow> status (heap (download_rejected rt r err left s) ! ref) = Failed
              \<and> error (heap (download_rejected rt r err left s) ! ref)
                  = Some ''Download failed''"
    using assms(3) by (auto simp: heap' heap_startDownload_catch)
  have by_pause: "\<forall>tid s0. pauseTask rt tid s0 = (True, s) \<and> map_of (tasks s0) tid = Some ref
          \<longrightarrow> status (heap s ! ref) = Paused"
  proof (intro allI impI)
    fix tid s0
    assume a: "pauseTask rt tid s0 = (True, s) \<and> map_of (tasks s0) tid = Some ref"
    then have h: "heap s = (heap s0)[ref := (heap s0 ! ref)\<lparr>status := Paused\<rparr>]"
      using heap_pauseTask by blast
    with assms(3) have "ref < length (heap s0)" by simp
    with h show "status (heap s ! ref) = Paused" by simp
  qed
  from paused timed_out other by_pause show ?thesis by (intro conjI)
qed


lemma download_failure_handling_sample:
  "heap (download_rejected sample_runtime 0 abort_error None s_paused) = heap s_paused
   \<and> run_phase (runs (download_rejected sample_runtime 0 abort_error None s_paused) ! 0)
       = RunReturned
   \<and> status (heap s_paused ! 0) = Paused
   \<and> status (heap (download_rejected sample_runtime 0 abort_error None s_downloading) ! 0)
       = Failed
   \<and> error (heap (download_rejected sample_runtime 0 abort_error None s_downloading) ! 0)
       = Some ''Download timed out''
   \<and> status (heap (download_rejected sample_runtime 0 (new_Error ''HTTP 503: Service Unavailable'')
                      None s_downloading) ! 0) = Failed
   \<and> error (heap (download_rejected sample_runtime 0 (new_Error ''HTTP 503: Service Unavailable'')
                      None s_downloading) ! 0) = Some ''Download failed''"
proof -
  have dl: "awaiting AwaitingDownload 0 s_downloading"
    "0 = run_task (runs s_downloading ! 0)" "0 < length (heap s_downloading)"
    "status (heap s_downloading ! 0) \<noteq> Paused"
    by code_simp+
  have pa: "awaiting AwaitingDownload 0 s_paused"
    "0 = run_task (runs s_paused ! 0)" "0 < length (heap s_paused)"
    by code_simp+
  have "fst (pauseTask sample_runtime ''01234567-89ab-4cde-8f01-23456789abcd'' s_downloading)"
    by code_simp
  then have paused_by: "pauseTask sample_runtime ''01234567-89ab-4cde-8f01-23456789abcd''
      s_downloading = (True, s_paused)"
    by (simp add: s_paused_def prod_eq_iff)
  have known: "map_of (tasks s_downloading) ''01234567-89ab-4cde-8f01-23456789abcd'' = Some 0"
    using s_downloading_task by simp
  note P = download_failure_handling [OF pa, where rt = sample_runtime]
  note D = download_failure_handling [OF dl(1-3), where rt = sample_runtime]
  have abort: "instanceof_Error abort_error \<and> err_name abort_error = ''AbortError''"
    by (simp add: abort_error_def)
  have other: "\<not> (instanceof_Error (new_Error ''HTTP 503: Service Unavailable'')
      \<and> err_name (new_Error ''HTTP 503: Service Unavailable'') = ''AbortError'')"
    by (simp add: new_Error_def)
  have c: "status (heap s_paused ! 0) = Paused"
    using P [where err = abort_error and left = None,
        THEN conjunct2, THEN conjunct2, THEN conjunct2]
      paused_by known by blast
  have ab: "heap (download_rejected sample_runtime 0 abort_error None s_paused) = heap s_paused
      \<and> run_phase (runs (download_rejected sample_runtime 0 abort_error None s_paused) ! 0)
          = RunReturned"
    using P [where err = abort_error and left = None, THEN conjunct1] abort c by blast
  have de: "status (heap (download_rejected sample_runtime 0 abort_error None s_downloading) ! 0)
        = Failed
      \<and> error (heap (download_rejected sample_runtime 0 abort_error None s_downloading) ! 0)
        = Some ''Download timed out''"
    using D [where err = abort_error and left = None, THEN conjunct2, THEN conjunct1]
      abort dl(4) by blast
  have fg: "status (heap (download_rejected sample_runtime 0
                (new_Error ''HTTP 503: Service Unavailable'') None s_downloading) ! 0) = Failed
      \<and> error (heap (download_rejected sample_runtime 0
                (new_Error ''HTTP 503: Service Unavailable'') None s_downloading) ! 0)
          = Some ''Download failed''"
    using D [where err = "new_Error ''HTTP 503: Service Unavailable''" and left = None,
        THEN conjunct2, THEN conjunct2, THEN conjunct1] other by blast
  from ab c de fg show ?thesis by blast
qed



text \<open>
  Claim C4 at the input where the code departs from it. The sample task is downloading
  in chunks; chunk 0, the only chunk still pending, fails once with HTTP 500 and waits
  for its retry (a chunk whose fetch is in flight would reject with an \<open>AbortError\<close>
  at once, and \<open>Promise.all\<close> passes on the first rejection). The operator
  pauses the task: \<open>pauseTask\<close> aborts the controller of the call and the downloader,
  and sets the status to paused. When the timer of the retry fires, the chunk finds the
  \<open>aborted\<close> flag of the downloader set and throws \<open>new Error("Aborted")\<close>, which
  \<open>download\<close> passes on to \<open>startDownload\<close>. The name of this error is \<open>Error\<close>, not
  \<open>AbortError\<close>, so the catch block takes it for another error: the paused task becomes
  failed with the error \<open>Download failed\<close>, and it can no longer be resumed.
\<close>

theorem paused_download_marked_failed:
  "pc (downloadChunk \<lparr>chunk_index = 0, chunk_start = 0, chunk_end = 3\<rparr> False False
         [FetchSettles (Some (new_Error ''Chunk 0: HTTP 500'')),
          SignalAborts, AbortCalled, TimerFires])
     = Threw (new_Error ''Aborted'')
   \<and> fst (pauseTask sample_runtime ''01234567-89ab-4cde-8f01-23456789abcd'' s_downloading)
   \<and> status (heap s_paused ! 0) = Paused
   \<and> awaiting AwaitingDownload 0 s_paused
   \<and> run_task (runs s_paused ! 0) = 0
   \<and> status (heap (download_rejected sample_runtime 0 (new_Error ''Aborted'') None
                      s_paused) ! 0) = Failed
   \<and> error (heap (download_rejected sample_runtime 0 (new_Error ''Aborted'') None
                     s_paused) ! 0) = Some ''Download failed''
   \<and> \<not> fst (resumeTask sample_runtime 5000 ''01234567-89ab-4cde-8f01-23456789abcd''
              (download_rejected sample_runtime 0 (new_Error ''Aborted'') None s_paused))"
proof -
  have chunk: "pc (downloadChunk \<lparr>chunk_index = 0, chunk_start = 0, chunk_end = 3\<rparr>
         False False
         [FetchSettles (Some (new_Error ''Chunk 0: HTTP 500'')),
          SignalAborts, AbortCalled, TimerFires])
     = Threw (new_Error ''Aborted'')"
    by (simp add: downloadChunk_def downloadChunk_start_def loop_head_def on_failure_def
        new_Error_def CHUNK_RETRY_COUNT_def CHUNK_RETRY_DELAY_MS_def)
  have paused: "fst (pauseTask sample_runtime ''01234567-89ab-4cde-8f01-23456789abcd''
        s_downloading)"
    "status (heap s_paused ! 0) = Paused"
    "awaiting AwaitingDownload 0 s_paused"
    "run_task (runs s_paused ! 0) = 0"
    by code_simp+
  have failed: "status (heap (download_rejected sample_runtime 0 (new_Error ''Aborted'') None
                      s_paused) ! 0) = Failed"
    "error (heap (download_rejected sample_runtime 0 (new_Error ''Aborted'') None
                     s_paused) ! 0) = Some ''Download failed''"
    "\<not> fst (resumeTask sample_runtime 5000 ''01234567-89ab-4cde-8f01-23456789abcd''
              (download_rejected sample_runtime 0 (new_Error ''Aborted'') None s_paused))"
    by code_simp+
  from chunk paused failed show ?thesis by (intro conjI)
qed


section \<open>The persistence snapshot\<close>





lemma task_values_files [simp]: "task_values (s\<lparr>files := fs\<rparr>) = task_values s"
  by (simp add: task_values_def)

section \<open>Completed tasks hold no secrets\<close>

text \<open>A task without its secrets, and the condition on a single task.\<close>

definition stripped :: "DownloadTask \<Rightarrow> bool" where
  "stripped t = (downloadURL t = [] \<and> sinfs t = [] \<and> iTunesMetadata t = None)"

definition secret_free :: "DownloadTask \<Rightarrow> bool" where
  "secret_free t = (status t = Completed \<longrightarrow> stripped t)"

text \<open>
  How the task objects may change between two states: no object is lost, an object
  without secrets stays without them, an object that meets the condition still meets
  it, and every new object meets it.
\<close>

definition keeps :: "DownloadTask list \<Rightarrow> DownloadTask list \<Rightarrow> bool" where
  "keeps h h' =
     (length h \<le> length h'
      \<and> (\<forall>ref < length h. (stripped (h ! ref) \<longrightarrow> stripped (h' ! ref))
                           \<and> (secret_free (h ! ref) \<longrightarrow> secret_free (h' ! ref)))
      \<and> (\<forall>ref. length h \<le> ref \<and> ref < length h' \<longrightarrow> secret_free (h' ! ref)))"

lemma keeps_refl [simp]: "keeps h h"
  by (auto simp: keeps_def)

lemma keeps_trans: "keeps h h' \<Longrightarrow> keeps h' h'' \<Longrightarrow> keeps h h''"
  unfolding keeps_def
  by (metis (no_types, lifting) le_trans not_le order.strict_trans2)

lemma keeps_update:
  assumes "\<And>t. (stripped t \<longrightarrow> stripped (f t)) \<and> (secret_free t \<longrightarrow> secret_free (f t))"
  shows "keeps h (h[ref := f (h ! ref)])"
proof -
  have "(stripped (h ! k) \<longrightarrow> stripped (h[ref := f (h ! ref)] ! k))
      \<and> (secret_free (h ! k) \<longrightarrow> secret_free (h[ref := f (h ! ref)] ! k))"
    if "k < length h" for k
  proof (cases "k = ref")
    case True
    with that assms [of "h ! ref"] show ?thesis by simp
  next
    case False
    then show ?thesis by simp
  qed
  then show ?thesis by (auto simp: keeps_def)
qed

lemma keeps_append: "secret_free t \<Longrightarrow> keeps h (h @ [t])"
  by (auto simp: keeps_def nth_append)

lemma heap_deleteTask [simp]: "heap (snd (deleteTask rt tid s)) = heap s"
  by (simp add: deleteTask_def Let_def split: option.splits)

lemma heap_fold_deleteTask [simp]:
  "heap (fold (\<lambda>tid s'. snd (deleteTask rt tid s')) ids s) = heap s"
  by (induction ids arbitrary: s) simp_all

lemma heap_runTimeCleanup [simp]: "heap (runTimeCleanup rt now s) = heap s"
  by (simp add: runTimeCleanup_def Let_def)

lemma heap_evict [simp]: "heap (evict rt maxBytes totalBytes fts s) = heap s"
  by (induction rt maxBytes totalBytes fts s rule: evict.induct) (simp_all add: Let_def)

lemma heap_runSpaceCleanup [simp]: "heap (runSpaceCleanup rt s) = heap s"
  by (simp add: runSpaceCleanup_def Let_def)

lemma keeps_pauseTask: "keeps (heap s) (heap (snd (pauseTask rt tid s)))"
  by (auto simp: pauseTask_def Let_def stripped_def secret_free_def
      split: option.splits intro!: keeps_update)

lemma keeps_startDownload_catch: "keeps (heap s) (heap (startDownload_catch ref err s))"
  by (auto simp: heap_startDownload_catch stripped_def secret_free_def intro!: keeps_update)

lemma keeps_startDownload_complete: "keeps (heap s) (heap (startDownload_complete ref s))"
  by (auto simp: startDownload_complete_def stripped_def secret_free_def intro!: keeps_update)

lemma keeps_startDownload_in_dir:
  "keeps (heap s) (heap (startDownload_in_dir rt ref c dir resolvedDir packagesBase s))"
proof -
  have failed: "keeps (heap s)
      ((heap s)[ref := (heap s ! ref)\<lparr>status := Failed, error := Some ''Invalid path''\<rparr>])"
    by (rule keeps_update) (auto simp: stripped_def secret_free_def)
  have placed: "keeps (heap s) ((heap s)[ref := (heap s ! ref)\<lparr>filePath := Some p\<rparr>])" for p
    by (rule keeps_update) (auto simp: stripped_def secret_free_def)
  show ?thesis
  proof (cases "prefix (packagesBase @ path_sep) resolvedDir")
    case False
    with failed show ?thesis by (simp add: startDownload_in_dir_def)
  next
    case True
    define p where "p = path_join [dir, task_id (heap s ! ref) @ ''.ipa'']"
    define s1 where "s1 = update_task ref (\<lambda>t. t\<lparr>filePath := Some p\<rparr>) s"
    have k1: "keeps (heap s) (heap s1)"
      using placed [of p] by (simp add: s1_def)
    show ?thesis
    proof (cases "validateDownloadURL (parseURL rt) (downloadURL (heap s ! ref))")
      case (Inl e)
      have "keeps (heap s1) (heap (startDownload_catch ref e s1))"
        by (rule keeps_startDownload_catch)
      with k1 have "keeps (heap s) (heap (startDownload_catch ref e s1))"
        by (rule keeps_trans)
      with True Inl show ?thesis
        by (simp add: startDownload_in_dir_def Let_def p_def s1_def)
    next
      case (Inr ok)
      with True k1 show ?thesis
        by (simp add: startDownload_in_dir_def Let_def p_def s1_def)
    qed
  qed
qed

lemma keeps_startDownload: "keeps (heap s) (heap (startDownload rt now ref s))"
proof -
  define s1 where "s1 = runSpaceCleanup rt (runTimeCleanup rt now s)"
  define s2 where "s2 = s1\<lparr>controller_aborted := controller_aborted s1 @ [False],
      abortControllers := AList.update (task_id (heap s1 ! ref))
         (length (controller_aborted s1)) (abortControllers s1)\<rparr>"
  define s3 where "s3 = notifyProgress ref
      (update_task ref (\<lambda>t. t\<lparr>status := Downloading, progress := 0, speed := ''0 B/s'',
                               error := None\<rparr>) s2)"
  have h2: "heap s2 = heap s" by (simp add: s2_def s1_def)
  have k3: "keeps (heap s) (heap s3)"
    unfolding s3_def by (auto simp: h2 stripped_def secret_free_def intro!: keeps_update)
  have k4: "keeps (heap s)
      (heap (startDownload_in_dir rt ref c dir resolvedDir packagesBase s3))"
    for c dir resolvedDir packagesBase
    using k3 keeps_startDownload_in_dir by (rule keeps_trans)
  show ?thesis
    using k3 k4
    by (simp add: startDownload_def Let_def s1_def [symmetric] s2_def [symmetric]
        s3_def [symmetric] split: sum.splits)
qed


lemma keeps_resumeTask: "keeps (heap s) (heap (snd (resumeTask rt now tid s)))"
  by (simp add: resumeTask_def keeps_startDownload split: option.splits)

lemma keeps_createTask:
  "keeps (heap s) (heap (snd (createTask rt now uuid created sw acct url sfs metadata s)))"
proof -
  define task where "task = \<lparr>task_id = uuid, software = sw, accountHash = acct,
      downloadURL = url, sinfs = sfs, iTunesMetadata = metadata, status = Pending,
      progress = 0, speed = ''0 B/s'', error = None, filePath = None, createdAt = created\<rparr>"
  define s1 where "s1 = s\<lparr>heap := heap s @ [task],
      tasks := AList.update uuid (length (heap s)) (tasks s)\<rparr>"
  have "keeps (heap s) (heap s1)"
    by (simp add: s1_def task_def keeps_append secret_free_def)
  then have "keeps (heap s) (heap (startDownload rt now (length (heap s)) s1))"
    using keeps_startDownload by (rule keeps_trans)
  then show ?thesis
    by (simp add: createTask_def Let_def task_def s1_def split: sum.splits)
qed

lemma keeps_download_resolved: "keeps (heap s) (heap (download_resolved rt r written s))"
proof (cases "awaiting AwaitingDownload r s")
  case False
  then show ?thesis by (simp add: download_resolved_def)
next
  case True
  define ref where "ref = run_task (runs s ! r)"
  define s1 where "s1 = s\<lparr>files := (files s)(run_destination rt s r := Some written),
      chunkDownloaders := AList.delete (task_id (heap s ! ref)) (chunkDownloaders s),
      abortControllers := AList.delete (task_id (heap s ! ref)) (abortControllers s)\<rparr>"
  have h1: "heap s1 = heap s" by (simp add: s1_def)
  have inj: "keeps (heap s)
      (heap (update_task ref (\<lambda>t. t\<lparr>status := Injecting, progress := 100\<rparr>) s1))"
    by (auto simp: h1 stripped_def secret_free_def intro!: keeps_update)
  have fin: "keeps (heap s) (heap (startDownload_complete ref s1))"
    using keeps_startDownload_complete [of s1 ref] by (simp add: h1)
  show ?thesis
    using True inj fin
    by (simp add: download_resolved_def Let_def ref_def [symmetric] s1_def [symmetric])
qed

lemma keeps_download_rejected: "keeps (heap s) (heap (download_rejected rt r err left s))"
proof (cases "awaiting AwaitingDownload r s")
  case False
  then show ?thesis by (simp add: download_rejected_def)
next
  case True
  have "keeps (heap (s\<lparr>files := (files s)(run_destination rt s r := left)\<rparr>))
      (heap (startDownload_catch (run_task (runs s ! r)) err
               (s\<lparr>files := (files s)(run_destination rt s r := left)\<rparr>)))"
    by (rule keeps_startDownload_catch)
  with True show ?thesis
    by (simp add: download_rejected_def Let_def)
qed

lemma keeps_inject_resolved: "keeps (heap s) (heap (inject_resolved rt r written s))"
proof (cases "awaiting AwaitingInject r s")
  case False
  then show ?thesis by (simp add: inject_resolved_def)
next
  case True
  have "keeps (heap (s\<lparr>files := (files s)(run_destination rt s r := Some written)\<rparr>))
      (heap (startDownload_complete (run_task (runs s ! r))
               (s\<lparr>files := (files s)(run_destination rt s r := Some written)\<rparr>)))"
    by (rule keeps_startDownload_complete)
  with True show ?thesis
    by (simp add: inject_resolved_def Let_def)
qed

lemma keeps_inject_rejected: "keeps (heap s) (heap (inject_rejected r err s))"
  using keeps_startDownload_catch [of s "run_task (runs s ! r)" err]
  by (simp add: inject_rejected_def)

lemma keeps_onProgress:
  "keeps (heap s) (heap (onProgress r spd downloaded total_bytes s))"
proof (cases "awaiting AwaitingDownload r s")
  case False
  then show ?thesis by (simp add: onProgress_def)
next
  case True
  define ref where "ref = run_task (runs s ! r)"
  define s1 where "s1 = update_task ref (\<lambda>t. t\<lparr>speed := spd\<rparr>) s"
  have k1: "keeps (heap s) (heap s1)"
    by (auto simp: s1_def stripped_def secret_free_def intro!: keeps_update)
  have "keeps (heap s1)
      (heap (update_task ref (\<lambda>t. t\<lparr>progress := round_percent downloaded total_bytes\<rparr>) s1))"
    by (auto simp: stripped_def secret_free_def intro!: keeps_update)
  with k1 have k2: "keeps (heap s)
      (heap (update_task ref (\<lambda>t. t\<lparr>progress := round_percent downloaded total_bytes\<rparr>) s1))"
    by (rule keeps_trans)
  show ?thesis
    using True k1 k2
    by (simp add: onProgress_def Let_def ref_def [symmetric] s1_def [symmetric])
qed

lemma heap_timeout_fires [simp]: "heap (timeout_fires r s) = heap s"
  by (simp add: timeout_fires_def)

lemma heap_addProgressListener [simp]: "heap (addProgressListener tid l s) = heap s"
  by (simp add: addProgressListener_def Let_def)

lemma heap_removeProgressListener [simp]: "heap (removeProgressListener tid l s) = heap s"
  by (simp add: removeProgressListener_def Let_def split: option.splits)

lemma keeps_exec: "keeps (heap s) (heap (exec rt ev s))"
  by (cases ev)
     (simp_all add: keeps_createTask keeps_pauseTask keeps_resumeTask keeps_onProgress
        keeps_download_resolved keeps_download_rejected keeps_inject_resolved
        keeps_inject_rejected)

lemma keeps_run_events: "keeps (heap s) (heap (run_events rt evs s))"
proof (induction evs arbitrary: s)
  case Nil
  show ?case by (simp add: run_events_def)
next
  case (Cons ev evs)
  have "keeps (heap s) (heap (exec rt ev s))" by (rule keeps_exec)
  moreover have "keeps (heap (exec rt ev s)) (heap (run_events rt evs (exec rt ev s)))"
    by (rule Cons.IH)
  ultimately show ?case
    unfolding run_events_def by (simp add: keeps_trans)
qed

text \<open>Start-up restores only stripped, completed tasks.\<close>

lemma restore_items_secret_free:
  "\<forall>t\<in>set (heap s). secret_free t \<Longrightarrow> \<forall>t\<in>set (heap (restore_items rt elements s)). secret_free t"
proof (induction rt elements s rule: restore_items.induct)
  case (4 rt item rest s)
  show ?case
  proof (cases "item_id item \<noteq> [] \<and> item_status item = ''completed''
      \<and> item_filePath item \<noteq> [] \<and> existsSync rt (files s) (item_filePath item)")
    case True
    define s' where "s' = s\<lparr>heap := heap s @
                    [\<lparr>task_id = item_id item, software = item_software item,
                      accountHash = item_accountHash item, downloadURL = [], sinfs = [],
                      iTunesMetadata = None, status = Completed, progress = 100,
                      speed = ''0 B/s'', error = None,
                      filePath = Some (item_filePath item),
                      createdAt = item_createdAt item\<rparr>],
                 tasks := AList.update (item_id item) (length (heap s)) (tasks s)\<rparr>"
    have "\<forall>t\<in>set (heap s'). secret_free t"
      using "4.prems" by (simp add: s'_def secret_free_def stripped_def)
    then have "\<forall>t\<in>set (heap (restore_items rt rest s')). secret_free t"
      using "4.IH"(1) True unfolding s'_def by blast
    with True show ?thesis by (simp add: s'_def)
  next
    case False
    then have "restore_items rt (JObject item # rest) s = restore_items rt rest s"
      by auto
    with False "4.IH"(2) "4.prems" show ?thesis by auto
  qed
qed simp_all

lemma heap_cleanOrphanedPackages [simp]: "heap (cleanOrphanedPackages rt s) = heap s"
  by (simp add: cleanOrphanedPackages_def Let_def)

lemma initOnStartup_secret_free:
  "\<forall>t\<in>set (heap (initOnStartup rt now disk snapshot)). secret_free t"
proof (cases snapshot)
  case (JArray elements)
  define s0 where "s0 = \<lparr>heap = [], tasks = [], abortControllers = [], chunkDownloaders = [],
      progressListeners = [], controller_aborted = [], downloader_objs = [],
      files = disk(resolve rt (LEGACY_DOWNLOADS_FILE rt) := None),
      tasks_file = snapshot, runs = [], sent = []\<rparr>"
  have "\<forall>t\<in>set (heap s0). secret_free t" by (simp add: s0_def)
  then have "\<forall>t\<in>set (heap (restore_items rt elements s0)). secret_free t"
    by (rule restore_items_secret_free)
  then show ?thesis
    by (simp add: initOnStartup_def Let_def JArray s0_def)
qed (simp_all add: initOnStartup_def Let_def)

lemma keeps_secret_free:
  assumes "keeps h h'" "\<forall>t\<in>set h. secret_free t"
  shows "\<forall>t\<in>set h'. secret_free t"
proof
  fix t assume "t \<in> set h'"
  then obtain k where k: "k < length h'" "t = h' ! k"
    by (auto simp: in_set_conv_nth)
  show "secret_free t"
  proof (cases "k < length h")
    case True
    then have "secret_free (h ! k)" using assms(2) by simp
    with True assms(1) k show ?thesis by (simp add: keeps_def)
  next
    case False
    with assms(1) k show ?thesis by (simp add: keeps_def)
  qed
qed

text \<open>
  Claim C1. Start the service on any disk and snapshot, and let any events happen.
  Whenever a task object is in status completed after some of them, it has an empty
  \<open>downloadURL\<close>, no signatures and no \<open>iTunesMetadata\<close>, then and after any further
  events; this holds of the tasks restored at start-up as well, and of every task
  object, in the task map or not.
\<close>

theorem completed_tasks_hold_no_secrets:
  assumes "s1 = run_events rt evs1 (initOnStartup rt now disk snapshot)"
    and "s2 = run_events rt evs2 s1"
    and "ref < length (heap s1)"
    and "status (heap s1 ! ref) = Completed"
  shows "ref < length (heap s2)
         \<and> downloadURL (heap s2 ! ref) = []
         \<and> sinfs (heap s2 ! ref) = []
         \<and> iTunesMetadata (heap s2 ! ref) = None"
proof -
  have "keeps (heap (initOnStartup rt now disk snapshot)) (heap s1)"
    unfolding assms(1) by (rule keeps_run_events)
  then have "\<forall>t\<in>set (heap s1). secret_free t"
    using initOnStartup_secret_free by (rule keeps_secret_free)
  with assms(3) have "secret_free (heap s1 ! ref)" by simp
  with assms(4) have now_stripped: "stripped (heap s1 ! ref)"
    by (simp add: secret_free_def)
  have "keeps (heap s1) (heap s2)"
    unfolding assms(2) by (rule keeps_run_events)
  with assms(3) now_stripped have "ref < length (heap s2) \<and> stripped (heap s2 ! ref)"
    by (auto simp: keeps_def)
  then show ?thesis by (simp add: stripped_def)
qed


text \<open>The sample task completed (downloaded, then injected), and a service started on a
  disk and a snapshot that hold one earlier download.\<close>

definition s_completed :: manager where
  "s_completed = run_events sample_runtime
     [sample_create,
      DownloadResolved 0 \<lparr>st_size = 200, st_mtimeMs = 2000\<rparr>,
      InjectResolved 0 \<lparr>st_size = 210, st_mtimeMs = 2001\<rparr>]
     (initOnStartup sample_runtime 0 (\<lambda>p. None) NoFile)"

definition old_item :: snapshot_item where
  "old_item =
     \<lparr>item_id = ''99999999-aaaa-4bbb-8ccc-dddddddddddd'',
      item_software = \<lparr>software_name = ''Old'', bundleID = ''com.example.old'',
                        version = ''0.9''\<rparr>,
      item_accountHash = ''acct1'', item_downloadURL = [], item_sinfs = [],
      item_status = ''completed'', item_progress = 100, item_speed = ''0 B/s'',
      item_filePath =
        ''/data/packages/acct1/com.example.old/0.9/99999999-aaaa-4bbb-8ccc-dddddddddddd.ipa'',
      item_createdAt = ''2023-12-31T00:00:00.000Z''\<rparr>"

definition s_restored :: manager where
  "s_restored = run_events sample_runtime []
     (initOnStartup sample_runtime 0
        (\<lambda>p. if p = item_filePath old_item then Some \<lparr>st_size = 100, st_mtimeMs = 10\<rparr>
              else None)
        (JArray [JObject old_item]))"

theorem completed_tasks_hold_no_secrets_witness:
  "status (heap s_completed ! 0) = Completed
   \<and> downloadURL (heap (run_events sample_runtime
          [DeleteTask ''01234567-89ab-4cde-8f01-23456789abcd''] s_completed) ! 0) = []
   \<and> sinfs (heap (run_events sample_runtime
          [DeleteTask ''01234567-89ab-4cde-8f01-23456789abcd''] s_completed) ! 0) = []
   \<and> iTunesMetadata (heap (run_events sample_runtime
          [DeleteTask ''01234567-89ab-4cde-8f01-23456789abcd''] s_completed) ! 0) = None
   \<and> status (heap s_restored ! 0) = Completed
   \<and> downloadURL (heap (run_events sample_runtime [sample_create] s_restored) ! 0) = []
   \<and> sinfs (heap (run_events sample_runtime [sample_create] s_restored) ! 0) = []
   \<and> iTunesMetadata (heap (run_events sample_runtime [sample_create] s_restored) ! 0) = None"
proof -
  have c: "0 < length (heap s_completed)" "status (heap s_completed ! 0) = Completed"
    by code_simp+
  have r: "0 < length (heap s_restored)" "status (heap s_restored ! 0) = Completed"
    by code_simp+
  note a = completed_tasks_hold_no_secrets [OF s_completed_def refl c]
  note b = completed_tasks_hold_no_secrets [OF s_restored_def refl r]
  from c(2) r(2)
    a [of "[DeleteTask ''01234567-89ab-4cde-8f01-23456789abcd'']"]
    b [of "[sample_create]"]
  show ?thesis by blast
qed



section \<open>The snapshot, written and read back\<close>


lemma files_restore_items [simp]: "files (restore_items rt elements s) = files s"
  by (induction rt elements s rule: restore_items.induct) simp_all






definition old_disk :: file_system where
  "old_disk = (\<lambda>p. if p = item_filePath old_item then Some \<lparr>st_size = 100, st_mtimeMs = 10\<rparr>
                    else None)"



section \<open>Where the files of the tasks lie\<close>

text \<open>A task whose \<open>filePath\<close>, if set, resolves to a path that begins with the resolved
  packages base followed by the separator.\<close>

definition under_base :: "runtime \<Rightarrow> DownloadTask \<Rightarrow> bool" where
  "under_base rt t =
     (case filePath t of
        None \<Rightarrow> True
      | Some p \<Rightarrow> prefix (resolve rt (PACKAGES_DIR rt) @ path_sep) (resolve rt p))"

text \<open>
  What the proof carries along: a task that is not completed has an id made by
  \<open>uuidv4()\<close>, and so has the task of every call of \<open>startDownload\<close>. (A task restored at
  start-up has the id found in the snapshot; it is completed and no call ever holds it.)
\<close>

definition task_inv :: "runtime \<Rightarrow> DownloadTask \<Rightarrow> bool" where
  "task_inv rt t = (under_base rt t \<and> (status t \<noteq> Completed \<longrightarrow> is_uuid (task_id t)))"

definition run_tasks :: "manager \<Rightarrow> nat set" where
  "run_tasks s = set (map run_task (runs s))"

definition placement_inv :: "runtime \<Rightarrow> manager \<Rightarrow> bool" where
  "placement_inv rt s =
     ((\<forall>t\<in>set (heap s). task_inv rt t)
      \<and> (\<forall>ref\<in>run_tasks s. ref < length (heap s) \<longrightarrow> is_uuid (task_id (heap s ! ref))))"

lemma placement_same:
  "placement_inv rt s \<Longrightarrow> heap s' = heap s \<Longrightarrow> run_tasks s' = run_tasks s \<Longrightarrow>
     placement_inv rt s'"
  by (simp add: placement_inv_def)

lemma placement_update:
  assumes "placement_inv rt s"
    and "heap s' = (heap s)[ref := t']"
    and "run_tasks s' = run_tasks s"
    and "ref < length (heap s) \<Longrightarrow> task_id t' = task_id (heap s ! ref) \<and> task_inv rt t'"
  shows "placement_inv rt s'"
proof -
  have tasks_ok: "\<forall>t\<in>set (heap s'). task_inv rt t"
  proof
    fix t assume "t \<in> set (heap s')"
    then obtain k where k: "k < length (heap s)" "t = (heap s)[ref := t'] ! k"
      unfolding assms(2) by (auto simp: in_set_conv_nth)
    show "task_inv rt t"
    proof (cases "k = ref")
      case True
      with k assms(4) show ?thesis by simp
    next
      case False
      with k have "t = heap s ! k" by simp
      with k(1) assms(1) show ?thesis by (simp add: placement_inv_def)
    qed
  qed
  have ids: "task_id ((heap s)[ref := t'] ! k) = task_id (heap s ! k)"
    if "k < length (heap s)" for k
    using that assms(4) by (cases "k = ref") simp_all
  have runs_ok: "\<forall>k\<in>run_tasks s'. k < length (heap s') \<longrightarrow> is_uuid (task_id (heap s' ! k))"
    using assms(1) by (simp add: assms(2,3) ids placement_inv_def)
  from tasks_ok runs_ok show ?thesis by (simp add: placement_inv_def)
qed

lemma map_run_task_update:
  assumes "run_task y = run_task (xs ! r)"
  shows "map run_task (xs[r := y]) = map run_task xs"
proof (cases "r < length xs")
  case True
  with assms show ?thesis
    by (simp add: map_update list_update_same_conv)
next
  case False
  then show ?thesis by (simp add: list_update_beyond)
qed

lemma image_run_task_update:
  assumes "run_task y = run_task (xs ! r)"
  shows "run_task ` set (xs[r := y]) = run_task ` set xs"
proof -
  have "set (map run_task (xs[r := y])) = set (map run_task xs)"
    using assms by (simp only: map_run_task_update)
  then show ?thesis by simp
qed

lemma run_tasks_simps [simp]:
  "run_tasks (notifyProgress ref s) = run_tasks s"
  "run_tasks (update_task ref f s) = run_tasks s"
  "run_tasks (persistTasks s) = run_tasks s"
  "run_tasks (set_run r armed ph s) = run_tasks s"
  "run_tasks (add_run ref c a ph s) = insert ref (run_tasks s)"
  "run_tasks (startDownload_catch ref err s) = run_tasks s"
  "run_tasks (timeout_fires r s) = run_tasks s"
  by (simp_all add: run_tasks_def add_run_def timeout_fires_def image_run_task_update)


lemma runs_abort_controller [simp]: "runs (abort_controller tid s) = runs s"
  by (simp add: abort_controller_def split: option.splits)

lemma runs_abort_downloader [simp]: "runs (abort_downloader rt tid s) = runs s"
  by (simp add: abort_downloader_def Let_def split: option.splits)

lemma runs_deleteTask [simp]: "runs (snd (deleteTask rt tid s)) = runs s"
  by (simp add: deleteTask_def Let_def split: option.splits)

lemma runs_fold_deleteTask [simp]:
  "runs (fold (\<lambda>tid s'. snd (deleteTask rt tid s')) ids s) = runs s"
  by (induction ids arbitrary: s) simp_all

lemma runs_runTimeCleanup [simp]: "runs (runTimeCleanup rt now s) = runs s"
  by (simp add: runTimeCleanup_def Let_def)

lemma runs_evict [simp]: "runs (evict rt maxBytes totalBytes fts s) = runs s"
  by (induction rt maxBytes totalBytes fts s rule: evict.induct) (simp_all add: Let_def)

lemma runs_runSpaceCleanup [simp]: "runs (runSpaceCleanup rt s) = runs s"
  by (simp add: runSpaceCleanup_def Let_def)

lemma runs_listeners [simp]:
  "runs (addProgressListener tid l s) = runs s"
  "runs (removeProgressListener tid l s) = runs s"
  by (simp_all add: addProgressListener_def removeProgressListener_def Let_def
      split: option.splits)

text \<open>The file of a task lies beneath the base whenever its directory does.\<close>

lemma uuid_file_plain: "is_uuid u \<Longrightarrow> plain_segment (u @ ''.ipa'')"
proof -
  assume u: "is_uuid u"
  then have len: "length (u @ ''.ipa'') = 40" by (simp add: is_uuid_def)
  have "CHR ''/'' \<notin> set u"
    using u by (auto simp: is_uuid_def list_all_iff)
  then have "CHR ''/'' \<notin> set (u @ ''.ipa'')" by simp
  moreover have "u @ ''.ipa'' \<noteq> ''.''" "u @ ''.ipa'' \<noteq> ''..''" "u @ ''.ipa'' \<noteq> []"
    using len by auto
  ultimately show ?thesis by (simp add: plain_segment_def)
qed

lemma file_under_base:
  assumes "prefix (base @ ''/'') (path_resolve cwd dir)" "plain_segment f"
  shows "prefix (base @ ''/'') (path_resolve cwd (path_join [dir, f]))"
proof -
  define ds where "ds = resolve_segments cwd dir"
  have segs: "resolve_segments cwd (path_join [dir, f]) = ds @ [f]"
    unfolding ds_def using assms(2) by (intro resolve_segments_join) simp_all
  show ?thesis
  proof (cases "ds = []")
    case True
    with assms(1) have "prefix (base @ ''/'') ''/''"
      by (simp add: path_resolve_def ds_def [symmetric])
    then have "length (base @ ''/'') \<le> length ''/''"
      by (rule prefix_length_le)
    then have "base = []" by simp
    then show ?thesis by (simp add: path_resolve_def)
  next
    case False
    then have "path_resolve cwd (path_join [dir, f]) = path_resolve cwd dir @ ''/'' @ f"
      by (simp add: path_resolve_def segs ds_def [symmetric] join_with_append)
    with assms(1) show ?thesis
      by (metis prefix_prefix)
  qed
qed

lemma placed_file_under_base:
  assumes "prefix (resolve rt (PACKAGES_DIR rt) @ path_sep) (resolve rt dir)" "is_uuid u"
  shows "under_base rt (t\<lparr>filePath := Some (path_join [dir, u @ ''.ipa''])\<rparr>)"
  using file_under_base [of "resolve rt (PACKAGES_DIR rt)" "working_dir rt" dir "u @ ''.ipa''"]
    assms uuid_file_plain [OF assms(2)]
  by (simp add: under_base_def resolve_def path_sep_def)


lemma placement_update_same_path:
  assumes "placement_inv rt s"
    and "heap s' = (heap s)[ref := t']"
    and "run_tasks s' = run_tasks s"
    and "ref < length (heap s) \<Longrightarrow>
           task_id t' = task_id (heap s ! ref) \<and> filePath t' = filePath (heap s ! ref)"
    and "ref < length (heap s) \<Longrightarrow> status t' \<noteq> Completed \<Longrightarrow>
           is_uuid (task_id (heap s ! ref))"
  shows "placement_inv rt s'"
proof (rule placement_update [OF assms(1,2,3)])
  assume valid: "ref < length (heap s)"
  then have "task_inv rt (heap s ! ref)"
    using assms(1) by (simp add: placement_inv_def)
  then have "under_base rt t'"
    using assms(4) [OF valid] by (simp add: task_inv_def under_base_def)
  then show "task_id t' = task_id (heap s ! ref) \<and> task_inv rt t'"
    using assms(4) [OF valid] assms(5) [OF valid] by (auto simp: task_inv_def)
qed

lemma placement_deleteTask:
  "placement_inv rt s \<Longrightarrow> placement_inv rt (snd (deleteTask rt tid s))"
  by (erule placement_same) (simp_all add: run_tasks_def)

lemma placement_runTimeCleanup:
  "placement_inv rt s \<Longrightarrow> placement_inv rt (runTimeCleanup rt now s)"
  by (erule placement_same) (simp_all add: run_tasks_def)

lemma placement_runSpaceCleanup:
  "placement_inv rt s \<Longrightarrow> placement_inv rt (runSpaceCleanup rt s)"
  by (erule placement_same) (simp_all add: run_tasks_def)

lemma placement_pauseTask:
  assumes "placement_inv rt s"
  shows "placement_inv rt (snd (pauseTask rt tid s))"
proof (cases "map_of (tasks s) tid")
  case None
  with assms show ?thesis by (simp add: pauseTask_def)
next
  case (Some ref)
  show ?thesis
  proof (cases "status (heap s ! ref) = Downloading")
    case False
    with Some assms show ?thesis by (simp add: pauseTask_def)
  next
    case True
    have "placement_inv rt
        (notifyProgress ref
           (update_task ref (\<lambda>t. t\<lparr>status := Paused\<rparr>)
              (abort_downloader rt tid (abort_controller tid s))))"
    proof (rule placement_update_same_path [OF assms,
          where t' = "(heap s ! ref)\<lparr>status := Paused\<rparr>" and ref = ref])
      assume "ref < length (heap s)"
      then have "task_inv rt (heap s ! ref)"
        using assms by (simp add: placement_inv_def)
      with True show "is_uuid (task_id (heap s ! ref))" by (simp add: task_inv_def)
    qed (simp_all add: run_tasks_def)
    with Some True show ?thesis by (simp add: pauseTask_def Let_def)
  qed
qed

lemma placement_catch:
  assumes "placement_inv rt s"
    and "ref < length (heap s) \<Longrightarrow> is_uuid (task_id (heap s ! ref))"
  shows "placement_inv rt (startDownload_catch ref err s)"
proof (cases "instanceof_Error err \<and> err_name err = ''AbortError''")
  case abort: True
  show ?thesis
  proof (cases "status (heap s ! ref) = Paused")
    case True
    with abort assms(1) show ?thesis
      by (intro placement_same [OF assms(1)]) (simp_all add: heap_startDownload_catch)
  next
    case False
    with abort show ?thesis
      by (intro placement_update_same_path [OF assms(1),
            where t' = "(heap s ! ref)\<lparr>status := Failed, error := Some ''Download timed out''\<rparr>"
            and ref = ref])
         (simp_all add: heap_startDownload_catch assms(2))
  qed
next
  case False
  then show ?thesis
    by (intro placement_update_same_path [OF assms(1),
          where t' = "(heap s ! ref)\<lparr>status := Failed, error := Some ''Download failed''\<rparr>"
          and ref = ref])
       (auto simp: heap_startDownload_catch assms(2))
qed

lemma placement_complete:
  assumes "placement_inv rt s"
  shows "placement_inv rt (startDownload_complete ref s)"
  by (rule placement_update_same_path [OF assms,
        where t' = "(heap s ! ref)\<lparr>status := Completed, progress := 100, downloadURL := [],
                           sinfs := [], iTunesMetadata := None\<rparr>" and ref = ref])
     (simp_all add: startDownload_complete_def)


lemma length_heap_catch [simp]:
  "length (heap (startDownload_catch ref err s)) = length (heap s)"
  by (simp add: heap_startDownload_catch)

lemma task_id_heap_catch [simp]:
  "task_id (heap (startDownload_catch ref err s) ! k) = task_id (heap s ! k)"
proof (cases "k = ref \<and> ref < length (heap s)")
  case True
  then show ?thesis by (simp add: heap_startDownload_catch)
next
  case False
  then show ?thesis by (auto simp: heap_startDownload_catch list_update_beyond)
qed

lemma placement_add_run:
  assumes "placement_inv rt s"
    and "ref < length (heap s) \<Longrightarrow> is_uuid (task_id (heap s ! ref))"
  shows "placement_inv rt (add_run ref c armed ph s)"
  using assms by (simp add: placement_inv_def)

lemma placement_in_dir:
  assumes "placement_inv rt s"
    and "ref < length (heap s) \<Longrightarrow> is_uuid (task_id (heap s ! ref))"
  shows "placement_inv rt
           (startDownload_in_dir rt ref c dir (resolve rt dir) (resolve rt (PACKAGES_DIR rt)) s)"
proof (cases "prefix (resolve rt (PACKAGES_DIR rt) @ path_sep) (resolve rt dir)")
  case False
  define s1 where "s1 = notifyProgress ref
      (update_task ref (\<lambda>t. t\<lparr>status := Failed, error := Some ''Invalid path''\<rparr>) s)"
  have "placement_inv rt s1"
    by (rule placement_update_same_path [OF assms(1),
          where t' = "(heap s ! ref)\<lparr>status := Failed, error := Some ''Invalid path''\<rparr>"
          and ref = ref])
       (simp_all add: s1_def assms(2))
  moreover have "ref < length (heap s1) \<Longrightarrow> is_uuid (task_id (heap s1 ! ref))"
    using assms(2) by (simp add: s1_def)
  ultimately have "placement_inv rt (add_run ref c False RunReturned s1)"
    by (rule placement_add_run)
  with False show ?thesis
    by (simp add: startDownload_in_dir_def s1_def)
next
  case True
  define p where "p = path_join [dir, task_id (heap s ! ref) @ ''.ipa'']"
  define s1 where "s1 = update_task ref (\<lambda>t. t\<lparr>filePath := Some p\<rparr>) s"
  have inv1: "placement_inv rt s1"
  proof (rule placement_update [OF assms(1),
        where t' = "(heap s ! ref)\<lparr>filePath := Some p\<rparr>" and ref = ref])
    assume valid: "ref < length (heap s)"
    then have old: "task_inv rt (heap s ! ref)"
      using assms(1) by (simp add: placement_inv_def)
    have "under_base rt ((heap s ! ref)\<lparr>filePath := Some p\<rparr>)"
      unfolding p_def using True assms(2) [OF valid] by (rule placed_file_under_base)
    with old assms(2) [OF valid]
    show "task_id ((heap s ! ref)\<lparr>filePath := Some p\<rparr>) = task_id (heap s ! ref)
        \<and> task_inv rt ((heap s ! ref)\<lparr>filePath := Some p\<rparr>)"
      by (simp add: task_inv_def)
  qed (simp_all add: s1_def)
  have id1: "ref < length (heap s1) \<Longrightarrow> is_uuid (task_id (heap s1 ! ref))"
    using assms(2) by (simp add: s1_def)
  show ?thesis
  proof (cases "validateDownloadURL (parseURL rt) (downloadURL (heap s ! ref))")
    case (Inl e)
    have c: "placement_inv rt (startDownload_catch ref e s1)"
      using inv1 id1 by (rule placement_catch)
    have "ref < length (heap (startDownload_catch ref e s1)) \<Longrightarrow>
        is_uuid (task_id (heap (startDownload_catch ref e s1) ! ref))"
      using id1 by simp
    with c have "placement_inv rt (add_run ref c False RunReturned (startDownload_catch ref e s1))"
      by (rule placement_add_run)
    with True Inl show ?thesis
      by (simp add: startDownload_in_dir_def Let_def p_def s1_def)
  next
    case (Inr ok)
    define s2 where "s2 = s1\<lparr>downloader_objs := downloader_objs s1 @ [(p, False)],
        chunkDownloaders := AList.update (task_id (heap s ! ref))
           (length (downloader_objs s1)) (chunkDownloaders s1)\<rparr>"
    have "placement_inv rt s2"
      using inv1 by (rule placement_same) (simp_all add: s2_def run_tasks_def)
    moreover have "ref < length (heap s2) \<Longrightarrow> is_uuid (task_id (heap s2 ! ref))"
      using id1 by (simp add: s2_def)
    ultimately have "placement_inv rt (add_run ref c True AwaitingDownload s2)"
      by (rule placement_add_run)
    with True Inr show ?thesis
      by (simp add: startDownload_in_dir_def Let_def p_def s1_def s2_def)
  qed
qed

lemma placement_startDownload:
  assumes "placement_inv rt s"
    and "ref < length (heap s) \<Longrightarrow> is_uuid (task_id (heap s ! ref))"
  shows "placement_inv rt (startDownload rt now ref s)"
proof -
  define s1 where "s1 = runSpaceCleanup rt (runTimeCleanup rt now s)"
  define c where "c = length (controller_aborted s1)"
  define s2 where "s2 = s1\<lparr>controller_aborted := controller_aborted s1 @ [False],
      abortControllers := AList.update (task_id (heap s1 ! ref)) c (abortControllers s1)\<rparr>"
  define s3 where "s3 = notifyProgress ref
      (update_task ref (\<lambda>t. t\<lparr>status := Downloading, progress := 0, speed := ''0 B/s'',
                               error := None\<rparr>) s2)"
  have inv1: "placement_inv rt s1"
    unfolding s1_def using assms(1)
    by (intro placement_runSpaceCleanup placement_runTimeCleanup)
  have h2: "heap s2 = heap s" by (simp add: s2_def s1_def)
  have inv2: "placement_inv rt s2"
    using inv1 by (rule placement_same) (simp_all add: s2_def run_tasks_def)
  have inv3: "placement_inv rt s3"
    by (rule placement_update_same_path [OF inv2,
          where t' = "(heap s2 ! ref)\<lparr>status := Downloading, progress := 0,
                        speed := ''0 B/s'', error := None\<rparr>" and ref = ref])
       (simp_all add: s3_def h2 assms(2))
  have id3: "ref < length (heap s3) \<Longrightarrow> is_uuid (task_id (heap s3 ! ref))"
    using assms(2) by (simp add: s3_def h2)
  have rejected: "placement_inv rt (add_run ref c True (RunRejected e) s3)" for e
    using inv3 id3 by (rule placement_add_run)
  have placed: "placement_inv rt
      (startDownload_in_dir rt ref c dir (resolve rt dir) (resolve rt (PACKAGES_DIR rt)) s3)"
    for dir
    using inv3 id3 by (rule placement_in_dir)
  show ?thesis
    using rejected placed
    by (simp add: startDownload_def Let_def s1_def [symmetric] c_def [symmetric]
        s2_def [symmetric] s3_def [symmetric] split: sum.splits)
qed

lemma placement_resumeTask:
  assumes "placement_inv rt s"
  shows "placement_inv rt (snd (resumeTask rt now tid s))"
proof (cases "map_of (tasks s) tid")
  case None
  with assms show ?thesis by (simp add: resumeTask_def)
next
  case (Some ref)
  show ?thesis
  proof (cases "status (heap s ! ref) = Paused")
    case False
    with Some assms show ?thesis by (simp add: resumeTask_def)
  next
    case True
    have "ref < length (heap s) \<Longrightarrow> is_uuid (task_id (heap s ! ref))"
    proof -
      assume "ref < length (heap s)"
      then have "task_inv rt (heap s ! ref)"
        using assms by (simp add: placement_inv_def)
      with True show ?thesis by (simp add: task_inv_def)
    qed
    with assms have "placement_inv rt (startDownload rt now ref s)"
      by (rule placement_startDownload)
    with Some True show ?thesis by (simp add: resumeTask_def)
  qed
qed

lemma placement_createTask:
  assumes "placement_inv rt s" "is_uuid uuid"
  shows "placement_inv rt (snd (createTask rt now uuid created sw acct url sfs metadata s))"
proof -
  define task where "task = \<lparr>task_id = uuid, software = sw, accountHash = acct,
      downloadURL = url, sinfs = sfs, iTunesMetadata = metadata, status = Pending,
      progress = 0, speed = ''0 B/s'', error = None, filePath = None, createdAt = created\<rparr>"
  define s1 where "s1 = s\<lparr>heap := heap s @ [task],
      tasks := AList.update uuid (length (heap s)) (tasks s)\<rparr>"
  have new: "task_inv rt task"
    using assms(2) by (simp add: task_def task_inv_def under_base_def)
  have "run_tasks s1 = run_tasks s" by (simp add: s1_def run_tasks_def)
  then have inv1: "placement_inv rt s1"
    using assms(1) new assms(2)
    by (auto simp: placement_inv_def s1_def nth_append task_def)
  have "is_uuid (task_id (heap s1 ! length (heap s)))"
    using assms(2) by (simp add: s1_def task_def)
  with inv1 have "placement_inv rt (startDownload rt now (length (heap s)) s1)"
    by (intro placement_startDownload)
  with assms(1) show ?thesis
    by (simp add: createTask_def Let_def task_def s1_def split: sum.splits)
qed


lemma run_task_uuid:
  assumes "placement_inv rt s" "r < length (runs s)" "run_task (runs s ! r) < length (heap s)"
  shows "is_uuid (task_id (heap s ! run_task (runs s ! r)))"
proof -
  have "run_task (runs s ! r) \<in> run_tasks s"
    using assms(2) by (simp add: run_tasks_def)
  with assms(1,3) show ?thesis by (simp add: placement_inv_def)
qed

lemma placement_download_resolved:
  assumes "placement_inv rt s"
  shows "placement_inv rt (download_resolved rt r written s)"
proof (cases "awaiting AwaitingDownload r s")
  case False
  with assms show ?thesis by (simp add: download_resolved_def)
next
  case True
  define ref where "ref = run_task (runs s ! r)"
  define s1 where "s1 = s\<lparr>files := (files s)(run_destination rt s r := Some written),
      chunkDownloaders := AList.delete (task_id (heap s ! ref)) (chunkDownloaders s),
      abortControllers := AList.delete (task_id (heap s ! ref)) (abortControllers s)\<rparr>"
  have inv1: "placement_inv rt s1"
    using assms by (rule placement_same) (simp_all add: s1_def run_tasks_def)
  have id1: "ref < length (heap s1) \<Longrightarrow> is_uuid (task_id (heap s1 ! ref))"
    using run_task_uuid [OF assms, of r] True by (simp add: s1_def ref_def awaiting_def)
  have inj: "placement_inv rt (set_run r False AwaitingInject
      (notifyProgress ref
         (update_task ref (\<lambda>t. t\<lparr>status := Injecting, progress := 100\<rparr>) s1)))"
    by (rule placement_update_same_path [OF inv1,
          where t' = "(heap s1 ! ref)\<lparr>status := Injecting, progress := 100\<rparr>" and ref = ref])
       (simp_all add: id1)
  have "placement_inv rt (startDownload_complete ref s1)"
    using inv1 by (rule placement_complete)
  then have fin: "placement_inv rt (set_run r False RunReturned (startDownload_complete ref s1))"
    by (rule placement_same) simp_all
  show ?thesis
    using True inj fin
    by (simp add: download_resolved_def Let_def ref_def [symmetric] s1_def [symmetric])
qed

lemma placement_download_rejected:
  assumes "placement_inv rt s"
  shows "placement_inv rt (download_rejected rt r err left s)"
proof (cases "awaiting AwaitingDownload r s")
  case False
  with assms show ?thesis by (simp add: download_rejected_def)
next
  case True
  define ref where "ref = run_task (runs s ! r)"
  define s1 where "s1 = s\<lparr>files := (files s)(run_destination rt s r := left)\<rparr>"
  have inv1: "placement_inv rt s1"
    using assms by (rule placement_same) (simp_all add: s1_def run_tasks_def)
  have id1: "ref < length (heap s1) \<Longrightarrow> is_uuid (task_id (heap s1 ! ref))"
    using run_task_uuid [OF assms, of r] True by (simp add: s1_def ref_def awaiting_def)
  have "placement_inv rt (startDownload_catch ref err s1)"
    using inv1 id1 by (rule placement_catch)
  then have "placement_inv rt (set_run r False RunReturned (startDownload_catch ref err s1))"
    by (rule placement_same) simp_all
  with True show ?thesis
    by (simp add: download_rejected_def Let_def ref_def [symmetric] s1_def [symmetric])
qed

lemma placement_inject_resolved:
  assumes "placement_inv rt s"
  shows "placement_inv rt (inject_resolved rt r written s)"
proof (cases "awaiting AwaitingInject r s")
  case False
  with assms show ?thesis by (simp add: inject_resolved_def)
next
  case True
  define s1 where "s1 = s\<lparr>files := (files s)(run_destination rt s r := Some written)\<rparr>"
  have "placement_inv rt s1"
    using assms by (rule placement_same) (simp_all add: s1_def run_tasks_def)
  then have "placement_inv rt (startDownload_complete (run_task (runs s ! r)) s1)"
    by (rule placement_complete)
  then have "placement_inv rt
      (set_run r False RunReturned (startDownload_complete (run_task (runs s ! r)) s1))"
    by (rule placement_same) simp_all
  with True show ?thesis
    by (simp add: inject_resolved_def Let_def s1_def [symmetric])
qed

lemma placement_inject_rejected:
  assumes "placement_inv rt s"
  shows "placement_inv rt (inject_rejected r err s)"
proof (cases "awaiting AwaitingInject r s")
  case False
  with assms show ?thesis by (simp add: inject_rejected_def)
next
  case True
  have "run_task (runs s ! r) < length (heap s) \<Longrightarrow>
      is_uuid (task_id (heap s ! run_task (runs s ! r)))"
    using run_task_uuid [OF assms, of r] True by (simp add: awaiting_def)
  with assms have "placement_inv rt (startDownload_catch (run_task (runs s ! r)) err s)"
    by (rule placement_catch)
  then have "placement_inv rt
      (set_run r False RunReturned (startDownload_catch (run_task (runs s ! r)) err s))"
    by (rule placement_same) simp_all
  with True show ?thesis by (simp add: inject_rejected_def)
qed

lemma placement_onProgress:
  assumes "placement_inv rt s"
  shows "placement_inv rt (onProgress r spd downloaded total_bytes s)"
proof (cases "awaiting AwaitingDownload r s")
  case False
  with assms show ?thesis by (simp add: onProgress_def)
next
  case True
  define ref where "ref = run_task (runs s ! r)"
  define s1 where "s1 = update_task ref (\<lambda>t. t\<lparr>speed := spd\<rparr>) s"
  have id0: "ref < length (heap s) \<Longrightarrow> is_uuid (task_id (heap s ! ref))"
    using run_task_uuid [OF assms, of r] True by (simp add: ref_def awaiting_def)
  have inv1: "placement_inv rt s1"
    by (rule placement_update_same_path [OF assms,
          where t' = "(heap s ! ref)\<lparr>speed := spd\<rparr>" and ref = ref])
       (simp_all add: s1_def id0)
  have id1: "ref < length (heap s1) \<Longrightarrow> is_uuid (task_id (heap s1 ! ref))"
    using id0 by (simp add: s1_def)
  have inv2: "placement_inv rt
      (update_task ref (\<lambda>t. t\<lparr>progress := round_percent downloaded total_bytes\<rparr>) s1)"
    by (rule placement_update_same_path [OF inv1,
          where t' = "(heap s1 ! ref)\<lparr>progress := round_percent downloaded total_bytes\<rparr>"
          and ref = ref])
       (simp_all add: id1)
  have n1: "placement_inv rt (notifyProgress ref s1)"
    using inv1 by (rule placement_same) simp_all
  have n2: "placement_inv rt (notifyProgress ref
      (update_task ref (\<lambda>t. t\<lparr>progress := round_percent downloaded total_bytes\<rparr>) s1))"
    using inv2 by (rule placement_same) simp_all
  show ?thesis
    using True n1 n2
    by (simp add: onProgress_def Let_def ref_def [symmetric] s1_def [symmetric])
qed

lemma placement_exec:
  assumes "placement_inv rt s"
  shows "placement_inv rt (exec rt ev s)"
proof (cases ev)
  case (CreateTask now uuid created sw acct url sfs metadata)
  with assms show ?thesis by (simp add: placement_createTask)
next
  case (AddProgressListener tid l)
  have "placement_inv rt (addProgressListener tid l s)"
    using assms by (rule placement_same) (simp_all add: run_tasks_def)
  with AddProgressListener show ?thesis by simp
next
  case (RemoveProgressListener tid l)
  have "placement_inv rt (removeProgressListener tid l s)"
    using assms by (rule placement_same) (simp_all add: run_tasks_def)
  with RemoveProgressListener show ?thesis by simp
next
  case (TimeoutFires r)
  have "placement_inv rt (timeout_fires r s)"
    using assms by (rule placement_same) simp_all
  with TimeoutFires show ?thesis by simp
next
  case (FileVanishes p)
  have "placement_inv rt (s\<lparr>files := (files s)(p := None)\<rparr>)"
    using assms by (rule placement_same) (simp_all add: run_tasks_def)
  with FileVanishes show ?thesis by simp
qed (use assms in \<open>simp_all add: placement_pauseTask placement_resumeTask placement_deleteTask
      placement_onProgress placement_download_resolved placement_download_rejected
      placement_inject_resolved placement_inject_rejected placement_runTimeCleanup\<close>)

lemma placement_run_events:
  "placement_inv rt s \<Longrightarrow> placement_inv rt (run_events rt evs s)"
  unfolding run_events_def
  by (induction evs arbitrary: s) (simp_all add: placement_exec)


lemma restore_items_completed:
  "runs (restore_items rt elements s) = runs s
   \<and> (( \<forall>t\<in>set (heap s). status t = Completed)
        \<longrightarrow> (\<forall>t\<in>set (heap (restore_items rt elements s)). status t = Completed))"
proof (induction rt elements s rule: restore_items.induct)
  case (4 rt item rest s)
  show ?case
  proof (cases "item_id item \<noteq> [] \<and> item_status item = ''completed''
      \<and> item_filePath item \<noteq> [] \<and> existsSync rt (files s) (item_filePath item)")
    case True
    define s' where "s' = s\<lparr>heap := heap s @
                    [\<lparr>task_id = item_id item, software = item_software item,
                      accountHash = item_accountHash item, downloadURL = [], sinfs = [],
                      iTunesMetadata = None, status = Completed, progress = 100,
                      speed = ''0 B/s'', error = None,
                      filePath = Some (item_filePath item),
                      createdAt = item_createdAt item\<rparr>],
                 tasks := AList.update (item_id item) (length (heap s)) (tasks s)\<rparr>"
    have step: "restore_items rt (JObject item # rest) s = restore_items rt rest s'"
      using True by (simp add: s'_def)
    have ih: "runs (restore_items rt rest s') = runs s'
        \<and> ((\<forall>t\<in>set (heap s'). status t = Completed)
             \<longrightarrow> (\<forall>t\<in>set (heap (restore_items rt rest s')). status t = Completed))"
      using "4.IH"(1) True unfolding s'_def by blast
    have "runs s' = runs s" by (simp add: s'_def)
    moreover have "(\<forall>t\<in>set (heap s). status t = Completed)
        \<longrightarrow> (\<forall>t\<in>set (heap s'). status t = Completed)"
      by (simp add: s'_def)
    ultimately show ?thesis
      unfolding step using ih by auto
  next
    case False
    then have "restore_items rt (JObject item # rest) s = restore_items rt rest s"
      by auto
    with False "4.IH"(2) show ?thesis by auto
  qed
qed simp_all

lemma runs_cleanOrphanedPackages [simp]: "runs (cleanOrphanedPackages rt s) = runs s"
  by (simp add: cleanOrphanedPackages_def Let_def)

lemma initOnStartup_shape:
  "runs (initOnStartup rt now disk snapshot) = []
   \<and> (\<forall>t\<in>set (heap (initOnStartup rt now disk snapshot)). status t = Completed)"
proof (cases snapshot)
  case (JArray elements)
  define s0 where "s0 = \<lparr>heap = [], tasks = [], abortControllers = [], chunkDownloaders = [],
      progressListeners = [], controller_aborted = [], downloader_objs = [],
      files = disk(resolve rt (LEGACY_DOWNLOADS_FILE rt) := None),
      tasks_file = snapshot, runs = [], sent = []\<rparr>"
  have "runs (restore_items rt elements s0) = []
      \<and> (\<forall>t\<in>set (heap (restore_items rt elements s0)). status t = Completed)"
    using restore_items_completed [of rt elements s0] by (simp add: s0_def)
  then show ?thesis
    by (simp add: initOnStartup_def Let_def JArray s0_def)
qed (simp_all add: initOnStartup_def Let_def)

lemma placement_initOnStartup:
  assumes "\<forall>t\<in>set (heap (initOnStartup rt now disk snapshot)). under_base rt t"
  shows "placement_inv rt (initOnStartup rt now disk snapshot)"
  using assms initOnStartup_shape [of rt now disk snapshot]
  by (simp add: placement_inv_def task_inv_def run_tasks_def)

text \<open>
  The check in \<open>startDownload\<close> cannot fail: the three sanitized segments are plain, so
  the directory resolves to the resolved base followed by them.
\<close>

lemma sanitized_plain: "safePathSegment v label = Inr r \<Longrightarrow> plain_segment r"
  using safePathSegment_result [of v label r]
  by (auto simp: plain_segment_def segment_alphabet_def)

lemma destination_beneath_base:
  assumes "plain_segment a" "plain_segment b" "plain_segment c"
  shows "prefix (resolve rt (PACKAGES_DIR rt) @ path_sep)
           (resolve rt (path_join [PACKAGES_DIR rt, a, b, c]))"
proof -
  define base where "base = resolve_segments (working_dir rt) (PACKAGES_DIR rt)"
  have "base = resolve_segments (working_dir rt) (dataDir rt) @ [''packages'']"
    unfolding base_def PACKAGES_DIR_def
    by (intro resolve_segments_join) (simp_all add: plain_segment_def)
  then have ne: "base \<noteq> []" by simp
  have "resolve_segments (working_dir rt) (path_join [PACKAGES_DIR rt, a, b, c])
      = base @ [a, b, c]"
    unfolding base_def using assms by (intro resolve_segments_join) simp_all
  then have "resolve rt (path_join [PACKAGES_DIR rt, a, b, c])
      = resolve rt (PACKAGES_DIR rt) @ ''/'' @ join_with ''/'' [a, b, c]"
    using ne
    by (simp add: resolve_def path_resolve_def base_def [symmetric]
        join_with_append [of base "[a, b, c]"] del: join_with.simps)
  then show ?thesis by (simp add: path_sep_def)
qed


text \<open>
  What \<open>startDownload\<close> leaves in the task it is called for, when the three segments
  pass the sanitizer: the path of the file, and an error that is never the one of the
  check.
\<close>

lemma startDownload_placed:
  assumes "ref < length (heap s)"
    and "safePathSegment (accountHash (heap s ! ref)) ''accountHash'' = Inr a"
    and "safePathSegment (bundleID (software (heap s ! ref))) ''bundleID'' = Inr b"
    and "safePathSegment (version (software (heap s ! ref))) ''version'' = Inr c"
  shows "filePath (heap (startDownload rt now ref s) ! ref)
           = Some (path_join [path_join [PACKAGES_DIR rt, a, b, c],
                              task_id (heap s ! ref) @ ''.ipa''])
         \<and> error (heap (startDownload rt now ref s) ! ref) \<noteq> Some ''Invalid path''"
proof -
  define s1 where "s1 = runSpaceCleanup rt (runTimeCleanup rt now s)"
  define k where "k = length (controller_aborted s1)"
  define s2 where "s2 = s1\<lparr>controller_aborted := controller_aborted s1 @ [False],
      abortControllers := AList.update (task_id (heap s1 ! ref)) k (abortControllers s1)\<rparr>"
  define s3 where "s3 = notifyProgress ref
      (update_task ref (\<lambda>t. t\<lparr>status := Downloading, progress := 0, speed := ''0 B/s'',
                               error := None\<rparr>) s2)"
  define dir where "dir = path_join [PACKAGES_DIR rt, a, b, c]"
  define new_path where "new_path = path_join [dir, task_id (heap s3 ! ref) @ ''.ipa'']"
  define s4 where "s4 = update_task ref (\<lambda>t. t\<lparr>filePath := Some new_path\<rparr>) s3"
  have h1: "heap s1 = heap s" by (simp add: s1_def)
  have h3: "heap s3 ! ref = (heap s ! ref)\<lparr>status := Downloading, progress := 0,
      speed := ''0 B/s'', error := None\<rparr>"
    using assms(1) by (simp add: s3_def s2_def h1)
  have len3: "ref < length (heap s3)"
    using assms(1) by (simp add: s3_def s2_def h1)
  have fields: "accountHash (heap s3 ! ref) = accountHash (heap s ! ref)"
    "software (heap s3 ! ref) = software (heap s ! ref)"
    "task_id (heap s3 ! ref) = task_id (heap s ! ref)"
    by (simp_all add: h3)
  have beneath: "prefix (resolve rt (PACKAGES_DIR rt) @ path_sep) (resolve rt dir)"
    unfolding dir_def
    by (intro destination_beneath_base sanitized_plain [OF assms(2)]
        sanitized_plain [OF assms(3)] sanitized_plain [OF assms(4)])
  have h4: "heap s4 ! ref = (heap s ! ref)\<lparr>status := Downloading, progress := 0,
      speed := ''0 B/s'', error := None, filePath := Some new_path\<rparr>"
    using len3 h3 by (simp add: s4_def)
  have len4: "ref < length (heap s4)" using len3 by (simp add: s4_def)
  have "startDownload rt now ref s =
     (case safePathSegment (accountHash (heap s3 ! ref)) ''accountHash'' of
        Inl e \<Rightarrow> add_run ref k True (RunRejected e) s3
      | Inr safeAccountHash \<Rightarrow>
          (case safePathSegment (bundleID (software (heap s3 ! ref))) ''bundleID'' of
             Inl e \<Rightarrow> add_run ref k True (RunRejected e) s3
           | Inr safeBundleID \<Rightarrow>
               (case safePathSegment (version (software (heap s3 ! ref))) ''version'' of
                  Inl e \<Rightarrow> add_run ref k True (RunRejected e) s3
                | Inr safeVersion \<Rightarrow>
                    startDownload_in_dir rt ref k
                      (path_join [PACKAGES_DIR rt, safeAccountHash, safeBundleID, safeVersion])
                      (resolve rt (path_join
                         [PACKAGES_DIR rt, safeAccountHash, safeBundleID, safeVersion]))
                      (resolve rt (PACKAGES_DIR rt)) s3)))"
    by (simp only: startDownload_def Let_def s1_def k_def s2_def s3_def)
  then have whole: "startDownload rt now ref s =
      startDownload_in_dir rt ref k dir (resolve rt dir) (resolve rt (PACKAGES_DIR rt)) s3"
    by (simp only: fields assms sum.case dir_def)
  have in_dir: "startDownload_in_dir rt ref k dir (resolve rt dir)
        (resolve rt (PACKAGES_DIR rt)) s3 =
      (case validateDownloadURL (parseURL rt) (downloadURL (heap s3 ! ref)) of
         Inl e \<Rightarrow> add_run ref k False RunReturned (startDownload_catch ref e s4)
       | Inr ok \<Rightarrow>
           add_run ref k True AwaitingDownload
             (s4\<lparr>downloader_objs := downloader_objs s4 @ [(new_path, False)],
                 chunkDownloaders :=
                   AList.update (task_id (heap s3 ! ref)) (length (downloader_objs s4))
                     (chunkDownloaders s4)\<rparr>))"
    using beneath
    by (simp only: startDownload_in_dir_def Let_def s4_def new_path_def simp_thms if_False)
  show ?thesis
  proof (cases "validateDownloadURL (parseURL rt) (downloadURL (heap s3 ! ref))")
    case (Inl e)
    have "startDownload rt now ref s
        = add_run ref k False RunReturned (startDownload_catch ref e s4)"
      by (simp only: whole in_dir Inl sum.case)
    then have "heap (startDownload rt now ref s) = heap (startDownload_catch ref e s4)"
      by simp
    with len4 h4 show ?thesis
      by (simp add: heap_startDownload_catch new_path_def dir_def fields)
  next
    case (Inr ok)
    have "startDownload rt now ref s
        = add_run ref k True AwaitingDownload
             (s4\<lparr>downloader_objs := downloader_objs s4 @ [(new_path, False)],
                 chunkDownloaders :=
                   AList.update (task_id (heap s3 ! ref)) (length (downloader_objs s4))
                     (chunkDownloaders s4)\<rparr>)"
      by (simp only: whole in_dir Inr sum.case)
    then have "heap (startDownload rt now ref s) = heap s4"
      by simp
    with h4 show ?thesis by (simp add: new_path_def dir_def fields)
  qed
qed

text \<open>When a segment does not pass, the call is rejected before any path is computed;
  the error of the task was cleared before.\<close>

lemma startDownload_never_invalid_path:
  assumes "ref < length (heap s)"
  shows "error (heap (startDownload rt now ref s) ! ref) \<noteq> Some ''Invalid path''"
proof -
  define s1 where "s1 = runSpaceCleanup rt (runTimeCleanup rt now s)"
  define k where "k = length (controller_aborted s1)"
  define s2 where "s2 = s1\<lparr>controller_aborted := controller_aborted s1 @ [False],
      abortControllers := AList.update (task_id (heap s1 ! ref)) k (abortControllers s1)\<rparr>"
  define s3 where "s3 = notifyProgress ref
      (update_task ref (\<lambda>t. t\<lparr>status := Downloading, progress := 0, speed := ''0 B/s'',
                               error := None\<rparr>) s2)"
  have h1: "heap s1 = heap s" by (simp add: s1_def)
  have h3: "heap s3 ! ref = (heap s ! ref)\<lparr>status := Downloading, progress := 0,
      speed := ''0 B/s'', error := None\<rparr>"
    using assms(1) by (simp add: s3_def s2_def h1)
  have rejected: "error (heap (add_run ref k True (RunRejected e) s3) ! ref)
      \<noteq> Some ''Invalid path''" for e
    by (simp add: h3)
  have whole: "startDownload rt now ref s =
     (case safePathSegment (accountHash (heap s3 ! ref)) ''accountHash'' of
        Inl e \<Rightarrow> add_run ref k True (RunRejected e) s3
      | Inr safeAccountHash \<Rightarrow>
          (case safePathSegment (bundleID (software (heap s3 ! ref))) ''bundleID'' of
             Inl e \<Rightarrow> add_run ref k True (RunRejected e) s3
           | Inr safeBundleID \<Rightarrow>
               (case safePathSegment (version (software (heap s3 ! ref))) ''version'' of
                  Inl e \<Rightarrow> add_run ref k True (RunRejected e) s3
                | Inr safeVersion \<Rightarrow>
                    startDownload_in_dir rt ref k
                      (path_join [PACKAGES_DIR rt, safeAccountHash, safeBundleID, safeVersion])
                      (resolve rt (path_join
                         [PACKAGES_DIR rt, safeAccountHash, safeBundleID, safeVersion]))
                      (resolve rt (PACKAGES_DIR rt)) s3)))"
    by (simp only: startDownload_def Let_def s1_def k_def s2_def s3_def)
  have fields: "accountHash (heap s3 ! ref) = accountHash (heap s ! ref)"
    "software (heap s3 ! ref) = software (heap s ! ref)"
    by (simp_all add: h3)
  show ?thesis
  proof (cases "safePathSegment (accountHash (heap s ! ref)) ''accountHash''")
    case (Inl e)
    then have "startDownload rt now ref s = add_run ref k True (RunRejected e) s3"
      by (simp only: whole fields sum.case)
    with rejected [of e] show ?thesis by simp
  next
    case a: (Inr a)
    show ?thesis
    proof (cases "safePathSegment (bundleID (software (heap s ! ref))) ''bundleID''")
      case (Inl e)
      then have "startDownload rt now ref s = add_run ref k True (RunRejected e) s3"
        using a by (simp only: whole fields sum.case)
      with rejected [of e] show ?thesis by simp
    next
      case b: (Inr b)
      show ?thesis
      proof (cases "safePathSegment (version (software (heap s ! ref))) ''version''")
        case (Inl e)
        then have "startDownload rt now ref s = add_run ref k True (RunRejected e) s3"
          using a b by (simp only: whole fields sum.case)
        with rejected [of e] show ?thesis by simp
      next
        case (Inr c)
        with startDownload_placed [OF assms a b] show ?thesis by blast
      qed
    qed
  qed
qed

text \<open>
  Claim C2, as the code has it. Every \<open>filePath\<close> that \<open>startDownload\<close> assigns resolves
  to a path that begins with the resolved packages base followed by the separator, and
  no other operation assigns or changes a \<open>filePath\<close>: if the tasks restored at start-up
  have their files beneath the base, then after any events every task whose \<open>filePath\<close>
  is set has it beneath the base. (A restored task keeps the path stored in the
  snapshot, which start-up only tests for existence.) The check in \<open>startDownload\<close>
  never fails: whatever the state and the task, the call does not leave the error
  \<open>Invalid path\<close>; when the three segments pass the sanitizer, the destination directory
  resolves beneath the base and the task's \<open>filePath\<close> becomes the file named by the
  task id in that directory, which lies beneath the base when the id is one that
  \<open>uuidv4()\<close> makes.
\<close>

theorem filePath_beneath_packages_base:
  "((\<forall>t\<in>set (heap (initOnStartup rt now disk snapshot)). under_base rt t)
      \<longrightarrow> (\<forall>t\<in>set (heap (run_events rt evs (initOnStartup rt now disk snapshot))).
             under_base rt t))
   \<and> (ref < length (heap s)
      \<longrightarrow> error (heap (startDownload rt now ref s) ! ref) \<noteq> Some ''Invalid path'')
   \<and> (ref < length (heap s)
        \<and> safePathSegment (accountHash (heap s ! ref)) ''accountHash'' = Inr a
        \<and> safePathSegment (bundleID (software (heap s ! ref))) ''bundleID'' = Inr b
        \<and> safePathSegment (version (software (heap s ! ref))) ''version'' = Inr c
        \<and> is_uuid (task_id (heap s ! ref))
      \<longrightarrow> prefix (resolve rt (PACKAGES_DIR rt) @ path_sep)
             (resolve rt (path_join [PACKAGES_DIR rt, a, b, c]))
          \<and> filePath (heap (startDownload rt now ref s) ! ref)
              = Some (path_join [path_join [PACKAGES_DIR rt, a, b, c],
                                 task_id (heap s ! ref) @ ''.ipa''])
          \<and> under_base rt (heap (startDownload rt now ref s) ! ref))"
proof -
  have reachable: "(\<forall>t\<in>set (heap (initOnStartup rt now disk snapshot)). under_base rt t)
      \<longrightarrow> (\<forall>t\<in>set (heap (run_events rt evs (initOnStartup rt now disk snapshot))).
             under_base rt t)"
  proof
    assume "\<forall>t\<in>set (heap (initOnStartup rt now disk snapshot)). under_base rt t"
    then have "placement_inv rt (initOnStartup rt now disk snapshot)"
      by (rule placement_initOnStartup)
    then have "placement_inv rt (run_events rt evs (initOnStartup rt now disk snapshot))"
      by (rule placement_run_events)
    then show "\<forall>t\<in>set (heap (run_events rt evs (initOnStartup rt now disk snapshot))).
        under_base rt t"
      by (simp add: placement_inv_def task_inv_def)
  qed
  have guard: "ref < length (heap s)
      \<longrightarrow> error (heap (startDownload rt now ref s) ! ref) \<noteq> Some ''Invalid path''"
    using startDownload_never_invalid_path by blast
  have placed: "ref < length (heap s)
        \<and> safePathSegment (accountHash (heap s ! ref)) ''accountHash'' = Inr a
        \<and> safePathSegment (bundleID (software (heap s ! ref))) ''bundleID'' = Inr b
        \<and> safePathSegment (version (software (heap s ! ref))) ''version'' = Inr c
        \<and> is_uuid (task_id (heap s ! ref))
      \<longrightarrow> prefix (resolve rt (PACKAGES_DIR rt) @ path_sep)
             (resolve rt (path_join [PACKAGES_DIR rt, a, b, c]))
          \<and> filePath (heap (startDownload rt now ref s) ! ref)
              = Some (path_join [path_join [PACKAGES_DIR rt, a, b, c],
                                 task_id (heap s ! ref) @ ''.ipa''])
          \<and> under_base rt (heap (startDownload rt now ref s) ! ref)"
  proof
    assume h: "ref < length (heap s)
        \<and> safePathSegment (accountHash (heap s ! ref)) ''accountHash'' = Inr a
        \<and> safePathSegment (bundleID (software (heap s ! ref))) ''bundleID'' = Inr b
        \<and> safePathSegment (version (software (heap s ! ref))) ''version'' = Inr c
        \<and> is_uuid (task_id (heap s ! ref))"
    then have plain: "plain_segment a" "plain_segment b" "plain_segment c"
      using sanitized_plain by blast+
    then have dir: "prefix (resolve rt (PACKAGES_DIR rt) @ path_sep)
             (resolve rt (path_join [PACKAGES_DIR rt, a, b, c]))"
      by (rule destination_beneath_base)
    from h have path: "filePath (heap (startDownload rt now ref s) ! ref)
              = Some (path_join [path_join [PACKAGES_DIR rt, a, b, c],
                                 task_id (heap s ! ref) @ ''.ipa''])"
      using startDownload_placed by blast
    from h dir have "under_base rt ((heap (startDownload rt now ref s) ! ref)
        \<lparr>filePath := Some (path_join [path_join [PACKAGES_DIR rt, a, b, c],
                                      task_id (heap s ! ref) @ ''.ipa''])\<rparr>)"
      by (intro placed_file_under_base) simp_all
    with path have "under_base rt (heap (startDownload rt now ref s) ! ref)"
      by (simp add: under_base_def)
    with dir path show "prefix (resolve rt (PACKAGES_DIR rt) @ path_sep)
             (resolve rt (path_join [PACKAGES_DIR rt, a, b, c]))
          \<and> filePath (heap (startDownload rt now ref s) ! ref)
              = Some (path_join [path_join [PACKAGES_DIR rt, a, b, c],
                                 task_id (heap s ! ref) @ ''.ipa''])
          \<and> under_base rt (heap (startDownload rt now ref s) ! ref)"
      by (intro conjI)
  qed
  from reachable guard placed show ?thesis by (intro conjI)
qed

text \<open>
  The claim as written fails for a task restored at start-up: a snapshot entry whose
  file exists outside the packages directory is admitted with that path.
\<close>

definition foreign_item :: snapshot_item where
  "foreign_item = old_item\<lparr>item_filePath := ''/backup/old.ipa''\<rparr>"

definition s_foreign :: manager where
  "s_foreign =
     initOnStartup sample_runtime 0
       (\<lambda>p. if p = ''/backup/old.ipa'' then Some \<lparr>st_size = 100, st_mtimeMs = 10\<rparr> else None)
       (JArray [JObject foreign_item])"

theorem restored_filePath_counterexample:
  "map_of (tasks s_foreign) ''99999999-aaaa-4bbb-8ccc-dddddddddddd'' = Some 0
   \<and> status (heap s_foreign ! 0) = Completed
   \<and> filePath (heap s_foreign ! 0) = Some ''/backup/old.ipa''
   \<and> resolve sample_runtime ''/backup/old.ipa'' = ''/backup/old.ipa''
   \<and> resolve sample_runtime (PACKAGES_DIR sample_runtime) = ''/data/packages''
   \<and> \<not> prefix (resolve sample_runtime (PACKAGES_DIR sample_runtime) @ path_sep)
          (resolve sample_runtime ''/backup/old.ipa'')"
  by code_simp

text \<open>The service started on the disk and the snapshot that hold one earlier download
  beneath the base; then the sample task is created, downloaded and injected.\<close>

definition s_restored_completed :: manager where
  "s_restored_completed = run_events sample_runtime
     [sample_create,
      DownloadResolved 0 \<lparr>st_size = 200, st_mtimeMs = 2000\<rparr>,
      InjectResolved 0 \<lparr>st_size = 210, st_mtimeMs = 2001\<rparr>]
     (initOnStartup sample_runtime 0 old_disk (JArray [JObject old_item]))"

theorem filePath_beneath_packages_base_witness:
  "map filePath (heap s_restored_completed) =
     [Some ''/data/packages/acct1/com.example.old/0.9/99999999-aaaa-4bbb-8ccc-dddddddddddd.ipa'',
      Some ''/data/packages/acct_hash/com.example.app/1.0/01234567-89ab-4cde-8f01-23456789abcd.ipa'']
   \<and> under_base sample_runtime (heap s_restored_completed ! 0)
   \<and> under_base sample_runtime (heap s_restored_completed ! 1)
   \<and> error (heap (startDownload sample_runtime 5000 0 s_paused) ! 0) \<noteq> Some ''Invalid path''
   \<and> prefix (''/data/packages'' @ path_sep)
        (resolve sample_runtime
           (path_join [PACKAGES_DIR sample_runtime, ''acct_hash'', ''com.example.app'', ''1.0'']))
   \<and> filePath (heap (startDownload sample_runtime 5000 0 s_paused) ! 0)
       = Some ''/data/packages/acct_hash/com.example.app/1.0/01234567-89ab-4cde-8f01-23456789abcd.ipa''
   \<and> under_base sample_runtime (heap (startDownload sample_runtime 5000 0 s_paused) ! 0)"
proof -
  note T = filePath_beneath_packages_base [where rt = sample_runtime]
  have restored: "\<forall>t\<in>set (heap (initOnStartup sample_runtime 0 old_disk
      (JArray [JObject old_item]))). under_base sample_runtime t"
  proof -
    have "list_all (under_base sample_runtime) (heap (initOnStartup sample_runtime 0 old_disk
      (JArray [JObject old_item])))"
      by code_simp
    then show ?thesis by (simp add: list_all_iff)
  qed
  have all: "\<forall>t\<in>set (heap s_restored_completed). under_base sample_runtime t"
    unfolding s_restored_completed_def
    using T [THEN conjunct1, THEN mp, OF restored] by blast
  have two: "length (heap s_restored_completed) = 2" by code_simp
  then have "heap s_restored_completed ! 0 \<in> set (heap s_restored_completed)"
    "heap s_restored_completed ! 1 \<in> set (heap s_restored_completed)"
    by simp_all
  with all have b: "under_base sample_runtime (heap s_restored_completed ! 0)"
    "under_base sample_runtime (heap s_restored_completed ! 1)"
    by blast+
  have a: "map filePath (heap s_restored_completed) =
     [Some ''/data/packages/acct1/com.example.old/0.9/99999999-aaaa-4bbb-8ccc-dddddddddddd.ipa'',
      Some ''/data/packages/acct_hash/com.example.app/1.0/01234567-89ab-4cde-8f01-23456789abcd.ipa'']"
    by code_simp
  have one: "0 < length (heap s_paused)" by code_simp
  have c: "error (heap (startDownload sample_runtime 5000 0 s_paused) ! 0)
      \<noteq> Some ''Invalid path''"
    using T [THEN conjunct2, THEN conjunct1, THEN mp, OF one] .
  have segments: "0 < length (heap s_paused)
      \<and> safePathSegment (accountHash (heap s_paused ! 0)) ''accountHash'' = Inr ''acct_hash''
      \<and> safePathSegment (bundleID (software (heap s_paused ! 0))) ''bundleID''
          = Inr ''com.example.app''
      \<and> safePathSegment (version (software (heap s_paused ! 0))) ''version'' = Inr ''1.0''
      \<and> is_uuid (task_id (heap s_paused ! 0))"
    by code_simp
  have base: "resolve sample_runtime (PACKAGES_DIR sample_runtime) = ''/data/packages''"
    by code_simp
  have named: "path_join [path_join [PACKAGES_DIR sample_runtime, ''acct_hash'',
                                    ''com.example.app'', ''1.0''],
                         task_id (heap s_paused ! 0) @ ''.ipa'']
      = ''/data/packages/acct_hash/com.example.app/1.0/01234567-89ab-4cde-8f01-23456789abcd.ipa''"
    by code_simp
  note d = T [THEN conjunct2, THEN conjunct2, THEN mp, OF segments, unfolded base named]
  from a b c d show ?thesis by blast
qed

end
